theory Spec2Isabelle
  imports Main "HOL-Library.Sublist"
begin

text \<open>
  A model of the core of the repository viewer: \<open>buildTree\<close>, \<open>buildAsciiIndex\<close>, the
  status map, \<open>handleToggle\<close> and \<open>generateOutput\<close> of \<open>App.tsx\<close>, and
  \<open>fetchFileContents\<close> of \<open>services/githubService.ts\<close>. The first half holds the
  definitions, each next to the JavaScript it stands for; the second half holds the
  facts proved about them.

  Two more files of the repository are read but not modelled on their own. One is the
  \<open>FileTree\<close> component, whose \<open>sortedChildren\<close> orders the children of a node for the
  screen (directories first, then \<open>localeCompare\<close> on the names). The other is an
  earlier revision of \<open>App.tsx\<close>: its \<open>buildTree\<close>, \<open>buildAsciiIndex\<close> and
  \<open>generateOutput\<close> are the ones modelled here up to the wording of the section
  markers (\<open>---\<close> for the line of \<open>=\<close>, \<open>[Image: ..]\<close> for \<open>[Binary/Image Data: ..]\<close>);
  its \<open>handleToggle\<close> has no status map and takes the value to assign from the keys of
  the selection that lie under the toggled path.
\<close>

section \<open>Strings\<close>

text \<open>
  A JavaScript string is modelled as a \<^typ>\<open>string\<close> holding its UTF-8 bytes. The
  separators the code splits on (\<open>/\<close> and \<open>.\<close>) are ASCII and never occur inside a
  multi-byte sequence, so splitting bytes and splitting code units give the same pieces.
\<close>

text \<open>\<open>s.split(sep)\<close> for a one-character separator. The result is never empty:
  \<open>''.split('/')\<close> is \<open>['']\<close>.\<close>

fun split :: "char \<Rightarrow> string \<Rightarrow> string list" where
  "split sep [] = [[]]"
| "split sep (c # cs) =
     (if c = sep then [] # split sep cs
      else (case split sep cs of
              p # ps \<Rightarrow> (c # p) # ps
            | [] \<Rightarrow> [[c]]))"

text \<open>\<open>parts.join(sep)\<close> for a one-character separator.\<close>

fun join :: "char \<Rightarrow> string list \<Rightarrow> string" where
  "join sep [] = []"
| "join sep [p] = p"
| "join sep (p # q # ps) = p @ sep # join sep (q # ps)"

text \<open>\<open>xs.slice(i, j)\<close> for \<open>0 \<le> i \<le> j\<close>.\<close>

definition slice :: "nat \<Rightarrow> nat \<Rightarrow> 'a list \<Rightarrow> 'a list" where
  "slice i j xs = take (j - i) (drop i xs)"

text \<open>
  \<open>s.toLowerCase()\<close> on the ASCII letters. JavaScript also maps letters outside ASCII, but
  the only such letter whose lower case is an ASCII letter is U+212A (to \<open>k\<close>), and no
  extension in the table below contains a \<open>k\<close>: membership of the lowered string in that
  table is the same for both.
\<close>

definition lowerChar :: "char \<Rightarrow> char" where
  "lowerChar c =
     (if (65::nat) \<le> of_char c \<and> of_char c \<le> (90::nat)
      then char_of (of_char c + (32::nat)) else c)"

definition toLowerCase :: "string \<Rightarrow> string" where
  "toLowerCase s = map lowerChar s"

section \<open>Plain objects used as dictionaries\<close>

text \<open>
  The code keeps children, the selection and the status map in plain objects and reads
  them with \<open>obj[key]\<close>. Such an object is modelled by its own properties; for the
  children, whose order is observed through \<open>Object.values\<close>, as a list of pairs in
  enumeration order (array-index keys in ascending numeric order, then the other keys in
  order of creation).

  A read \<open>obj[key]\<close> of a key that is not an own property continues in
  \<open>Object.prototype\<close>. Its members are listed here; each of them is an object or a
  function, hence truthy. The code itself can add one more member: once \<open>buildTree\<close>
  has walked below a segment \<open>__proto__\<close>, \<open>Object.prototype.children\<close> exists. That
  one bit of ambient state is the first argument \<open>pc\<close> of the functions below.
\<close>

definition Object_prototype_keys :: "string list" where
  "Object_prototype_keys =
     [''constructor'', ''__defineGetter__'', ''__defineSetter__'', ''hasOwnProperty'',
      ''__lookupGetter__'', ''__lookupSetter__'', ''isPrototypeOf'',
      ''propertyIsEnumerable'', ''toString'', ''valueOf'', ''__proto__'',
      ''toLocaleString'']"

definition inherited :: "bool \<Rightarrow> string \<Rightarrow> bool" where
  "inherited pc key = (key \<in> set Object_prototype_keys \<or> (pc \<and> key = ''children''))"

text \<open>Array-index keys: the canonical decimal numerals of \<open>0 .. 2^32 - 2\<close>.\<close>

definition isDigit :: "char \<Rightarrow> bool" where
  "isDigit c = ((48::nat) \<le> of_char c \<and> of_char c \<le> (57::nat))"

definition digitsValue :: "string \<Rightarrow> int" where
  "digitsValue s = foldl (\<lambda>n c. 10 * n + (of_char c - 48)) 0 s"

definition isArrayIndex :: "string \<Rightarrow> bool" where
  "isArrayIndex key =
     (case key of
        [] \<Rightarrow> False
      | c # cs \<Rightarrow> list_all isDigit key \<and> (cs = [] \<or> c \<noteq> CHR ''0'')
                 \<and> digitsValue key < 4294967295)"

text \<open>\<open>obj[key] = v\<close> for a key that is not yet an own property: the new property takes
  its place in the enumeration order.\<close>

fun addProperty :: "string \<Rightarrow> 'v \<Rightarrow> (string \<times> 'v) list \<Rightarrow> (string \<times> 'v) list" where
  "addProperty key v [] = [(key, v)]"
| "addProperty key v ((k, w) # rest) =
     (if isArrayIndex key \<and> (digitsValue key < digitsValue k \<or> \<not> isArrayIndex k)
      then (key, v) # (k, w) # rest
      else (k, w) # addProperty key v rest)"

text \<open>A change inside the object stored under an existing own key keeps the key's place.\<close>

fun replaceProperty :: "string \<Rightarrow> 'v \<Rightarrow> (string \<times> 'v) list \<Rightarrow> (string \<times> 'v) list" where
  "replaceProperty key v [] = []"
| "replaceProperty key v ((k, w) # rest) =
     (if k = key then (k, v) # rest else (k, w) # replaceProperty key v rest)"

text \<open>\<open>Object.values(obj)\<close>.\<close>

definition Object_values :: "(string \<times> 'v) list \<Rightarrow> 'v list" where
  "Object_values obj = map snd obj"

text \<open>
  The selection and the status map are only read by key, so they are maps of their own
  properties. \<open>truthy pc obj key\<close> is the test \<open>obj[key] ? .. : ..\<close>; \<open>assign obj key v\<close>
  is \<open>obj[key] = v\<close> for a primitive \<open>v\<close>, which the setter of \<open>__proto__\<close> ignores and
  which creates or overwrites an own property for every other key.
\<close>

definition truthy :: "bool \<Rightarrow> (string \<rightharpoonup> bool) \<Rightarrow> string \<Rightarrow> bool" where
  "truthy pc obj key = (case obj key of Some b \<Rightarrow> b | None \<Rightarrow> inherited pc key)"

definition assign :: "(string \<rightharpoonup> 'v) \<Rightarrow> string \<Rightarrow> 'v \<Rightarrow> (string \<rightharpoonup> 'v)" where
  "assign obj key v = (if key = ''__proto__'' then obj else obj(key \<mapsto> v))"

section \<open>Data model\<close>

text \<open>Modelled from the spec: the declarations of \<open>GitHubItem\<close>, \<open>TreeNode\<close>,
  \<open>SelectionStatus\<close> and \<open>FileContent\<close> (\<open>types.ts\<close>) are not among the sources. The
  fields are the ones the code reads and writes; the kinds are the spec's \<open>tree\<close> and
  \<open>blob\<close>.\<close>

datatype kind = Blob | Tree

datatype GitHubItem =
  GitHubItem (item_path: string) (item_type: kind) (item_sha: string) (item_url: string)

text \<open>\<open>children\<close> is the plain object of the node. A node whose \<open>children\<close> field is
  missing behaves like one with no children in every function below
  (\<open>node.children || {}\<close>, \<open>if (node.children)\<close>), so the field is always present here.\<close>

datatype TreeNode =
  TreeNode (name: string) (path: string) (type: kind) (sha: string) (url: string)
    (children: "(string \<times> TreeNode) list")

datatype SelectionStatus = Checked | Unchecked | Indeterminate

type_synonym SelectionState = "string \<rightharpoonup> bool"

type_synonym SelectionStatusMap = "string \<rightharpoonup> SelectionStatus"

section \<open>buildTree\<close>

definition root_node :: TreeNode where
  "root_node = TreeNode ''root'' [] Tree [] [] []"

definition newNode :: "GitHubItem \<Rightarrow> string list \<Rightarrow> nat \<Rightarrow> string \<Rightarrow> TreeNode" where
  "newNode item parts index part =
     TreeNode part
       (join CHR ''/'' (slice 0 (index + 1) parts))
       (if index = length parts - 1 then item_type item else Tree)
       (if index = length parts - 1 then item_sha item else [])
       (if index = length parts - 1 then item_url item else [])
       []"

text \<open>
  The inner \<open>parts.forEach((part, index) => ..)\<close>, from position \<open>index\<close> on, with
  \<open>current\<close> the node reached so far; the result is that node after the walk. No node is
  shared, so updating in place and rebuilding the path to the root agree.

  \<open>current.children[part]\<close> is an own property (the walk goes on in that child), or
  undefined (a node is created), or a member of \<open>Object.prototype\<close>: then nothing is
  created, \<open>current\<close> becomes that built-in object, and the rest of the walk adds
  properties to built-in objects only; the tree is not touched again by this item.
\<close>

fun insertParts ::
  "bool \<Rightarrow> GitHubItem \<Rightarrow> string list \<Rightarrow> nat \<Rightarrow> string list \<Rightarrow> TreeNode \<Rightarrow> TreeNode" where
  "insertParts pc item parts index [] current = current"
| "insertParts pc item parts index (part # rest) current =
     (case map_of (children current) part of
        Some child \<Rightarrow>
          TreeNode (name current) (path current) (type current) (sha current) (url current)
            (replaceProperty part
               (insertParts pc item parts (index + 1) rest child) (children current))
      | None \<Rightarrow>
          if inherited pc part then current
          else
            TreeNode (name current) (path current) (type current) (sha current) (url current)
              (addProperty part
                 (insertParts pc item parts (index + 1) rest (newNode item parts index part))
                 (children current)))"

text \<open>A walk that goes on below a segment \<open>__proto__\<close> reaches \<open>Object.prototype\<close> and
  runs \<open>current.children = {}\<close> on it.\<close>

definition pollutes :: "string list \<Rightarrow> bool" where
  "pollutes parts = (''__proto__'' \<in> set (butlast parts))"

fun forEachItem :: "bool \<Rightarrow> GitHubItem list \<Rightarrow> TreeNode \<Rightarrow> TreeNode" where
  "forEachItem pc [] root = root"
| "forEachItem pc (item # items) root =
     (let parts = split CHR ''/'' (item_path item)
      in forEachItem (pc \<or> pollutes parts) items (insertParts pc item parts 0 parts root))"

definition buildTree :: "bool \<Rightarrow> GitHubItem list \<Rightarrow> TreeNode" where
  "buildTree pc items = forEachItem pc items root_node"

text \<open>The state of \<open>Object.prototype\<close> that a call of \<open>buildTree\<close> leaves behind.\<close>

definition pollutedAfter :: "bool \<Rightarrow> GitHubItem list \<Rightarrow> bool" where
  "pollutedAfter pc items =
     (pc \<or> list_ex (\<lambda>item. pollutes (split CHR ''/'' (item_path item))) items)"

section \<open>Classification by extension\<close>

definition IMAGE_EXTENSIONS :: "string list" where
  "IMAGE_EXTENSIONS = [''png'', ''jpg'', ''jpeg'', ''gif'', ''webp'', ''ico'']"

text \<open>\<open>file.path.split('.').pop()?.toLowerCase() || ''\<close>: \<open>pop\<close> of an empty array is
  undefined, and an empty or undefined left operand of \<open>||\<close> gives \<open>''\<close>.\<close>

definition extension :: "string \<Rightarrow> string" where
  "extension p =
     (case rev (split CHR ''.'' p) of
        [] \<Rightarrow> []
      | e # _ \<Rightarrow> (if toLowerCase e = [] then [] else toLowerCase e))"

definition isImage :: "string \<Rightarrow> bool" where
  "isImage p = (extension p \<in> set IMAGE_EXTENSIONS)"

section \<open>buildAsciiIndex\<close>

text \<open>The connector glyphs, U+2514 U+2500 U+2500 and U+251C U+2500 U+2500 followed by a
  space, and the continuation bar U+2502 followed by three spaces, in UTF-8.\<close>

definition connectorLast :: string where
  "connectorLast =
     [CHR 0xE2, CHR 0x94, CHR 0x94, CHR 0xE2, CHR 0x94, CHR 0x80,
      CHR 0xE2, CHR 0x94, CHR 0x80, CHR '' '']"

definition connectorMiddle :: string where
  "connectorMiddle =
     [CHR 0xE2, CHR 0x94, CHR 0x9C, CHR 0xE2, CHR 0x94, CHR 0x80,
      CHR 0xE2, CHR 0x94, CHR 0x80, CHR '' '']"

definition continuationBar :: string where
  "continuationBar = [CHR 0xE2, CHR 0x94, CHR 0x82, CHR '' '', CHR '' '', CHR '' '']"

text \<open>
  \<open>renderChildren cs pfx\<close> is the loop over \<open>Object.values(node.children)\<close> that both
  branches of the function run (\<open>map .. join('')\<close> for a node named \<open>root\<close>, \<open>forEach\<close>
  with \<open>result +=\<close> otherwise); \<open>i === children.length - 1\<close> holds for the last child.
  No branch sorts the children.
\<close>

fun buildAsciiIndex :: "TreeNode \<Rightarrow> string \<Rightarrow> bool \<Rightarrow> string"
  and renderChildren :: "(string \<times> TreeNode) list \<Rightarrow> string \<Rightarrow> string" where
  "buildAsciiIndex (TreeNode nm p ty sh u cs) pfx isLast =
     (if nm = ''root'' then renderChildren cs []
      else pfx @ (if isLast then connectorLast else connectorMiddle) @ nm @ ''\<newline>''
           @ renderChildren cs (pfx @ (if isLast then ''    '' else continuationBar)))"
| "renderChildren [] pfx = []"
| "renderChildren ((k, child) # rest) pfx =
     buildAsciiIndex child pfx (rest = []) @ renderChildren rest pfx"

section \<open>selectionStatusMap\<close>

text \<open>\<open>compute\<close> writes \<open>map[node.path]\<close> after the children of the node; the map is
  passed through. \<open>computeChildren\<close> is \<open>children.map(c => compute(c))\<close>.\<close>

fun compute ::
    "bool \<Rightarrow> SelectionState \<Rightarrow> TreeNode \<Rightarrow> SelectionStatusMap
      \<Rightarrow> SelectionStatus \<times> SelectionStatusMap"
  and computeChildren ::
    "bool \<Rightarrow> SelectionState \<Rightarrow> (string \<times> TreeNode) list \<Rightarrow> SelectionStatusMap
      \<Rightarrow> SelectionStatus list \<times> SelectionStatusMap" where
  "compute pc selection (TreeNode nm p ty sh u cs) m =
     (if ty = Blob then
        (let s = (if truthy pc selection p then Checked else Unchecked)
         in (s, assign m p s))
      else if cs = [] then (Unchecked, assign m p Unchecked)
      else
        (let (statuses, m') = computeChildren pc selection cs m;
             allChecked = list_all (\<lambda>s. s = Checked) statuses;
             allUnchecked = list_all (\<lambda>s. s = Unchecked) statuses;
             status = (if allChecked then Checked
                       else if allUnchecked then Unchecked else Indeterminate)
         in (status, assign m' p status)))"
| "computeChildren pc selection [] m = ([], m)"
| "computeChildren pc selection ((k, child) # rest) m =
     (let (s, m1) = compute pc selection child m;
          (ss, m2) = computeChildren pc selection rest m1
      in (s # ss, m2))"

definition selectionStatusMap ::
  "bool \<Rightarrow> TreeNode option \<Rightarrow> SelectionState \<Rightarrow> SelectionStatusMap" where
  "selectionStatusMap pc treeData selection =
     (case treeData of
        None \<Rightarrow> Map.empty
      | Some root \<Rightarrow> snd (compute pc selection root Map.empty))"

section \<open>handleToggle\<close>

fun setRecursive :: "bool \<Rightarrow> TreeNode \<Rightarrow> SelectionState \<Rightarrow> SelectionState"
  and setRecursiveChildren ::
    "bool \<Rightarrow> (string \<times> TreeNode) list \<Rightarrow> SelectionState \<Rightarrow> SelectionState" where
  "setRecursive targetVal (TreeNode nm p ty sh u cs) next =
     setRecursiveChildren targetVal cs (if ty = Blob then assign next p targetVal else next)"
| "setRecursiveChildren targetVal [] next = next"
| "setRecursiveChildren targetVal ((k, child) # rest) next =
     setRecursiveChildren targetVal rest (setRecursive targetVal child next)"

text \<open>\<open>findAndSet\<close> returns whether the path was found; \<open>findAndSetSome\<close> is
  \<open>Object.values(node.children).some(findAndSet)\<close>, which stops at the first child that
  returns true.\<close>

fun findAndSet :: "string \<Rightarrow> bool \<Rightarrow> TreeNode \<Rightarrow> SelectionState \<Rightarrow> bool \<times> SelectionState"
  and findAndSetSome ::
    "string \<Rightarrow> bool \<Rightarrow> (string \<times> TreeNode) list \<Rightarrow> SelectionState \<Rightarrow> bool \<times> SelectionState"
  where
  "findAndSet target targetVal (TreeNode nm p ty sh u cs) next =
     (if p = target then (True, setRecursive targetVal (TreeNode nm p ty sh u cs) next)
      else findAndSetSome target targetVal cs next)"
| "findAndSetSome target targetVal [] next = (False, next)"
| "findAndSetSome target targetVal ((k, child) # rest) next =
     (let (found, next') = findAndSet target targetVal child next
      in if found then (True, next') else findAndSetSome target targetVal rest next')"

text \<open>\<open>handleToggle\<close> of \<open>App.tsx\<close>, as the function from \<open>prev\<close> to \<open>next\<close> that it hands
  to \<open>setSelection\<close>. \<open>statusMap\<close> is the \<open>selectionStatusMap\<close> of the render the callback
  was made in; \<open>statusMap[path] !== 'checked'\<close> holds for a missing entry.\<close>

definition handleToggle ::
  "bool \<Rightarrow> TreeNode option \<Rightarrow> SelectionStatusMap \<Rightarrow> string \<Rightarrow> bool
    \<Rightarrow> SelectionState \<Rightarrow> SelectionState" where
  "handleToggle pc treeData statusMap target isFile prev =
     (if isFile then assign prev target (\<not> truthy pc prev target)
      else
        (let targetVal = (statusMap target \<noteq> Some Checked)
         in case treeData of
              None \<Rightarrow> prev
            | Some root \<Rightarrow> snd (findAndSet target targetVal root prev)))"

section \<open>fetchFileContents\<close>

definition CONCURRENCY_LIMIT :: nat where
  "CONCURRENCY_LIMIT = 10"

datatype FileRef = FileRef (file_path: string) (file_url: string)

datatype ContentType = TextType | ImageType

text \<open>\<open>text\<close>, \<open>dataUrl\<close> and \<open>mimeType\<close> are optional fields.\<close>

datatype FileContent =
  FileContent (content_path: string) (content_url: string) (content_type: ContentType)
    (content_text: "string option") (dataUrl: "string option") (mimeType: "string option")

text \<open>
  The network is a parameter: what \<open>fetch(url)\<close> settles to. A promise is rejected or
  fulfilled. A response has its \<open>ok\<close> flag and a body; reading the body
  (\<open>response.text()\<close>, \<open>response.blob()\<close>) can be rejected as well. A body that is read
  gives its text, and for the image branch the data URL of the \<open>FileReader\<close> and the
  type of the blob.
\<close>

datatype 'a Settled = Rejected | Fulfilled 'a

datatype Payload =
  Payload (payload_text: string) (payload_dataUrl: string) (payload_type: string)

datatype Response = Response (ok: bool) (body: "Payload Settled")

type_synonym Network = "string \<Rightarrow> Response Settled"

text \<open>The callback of \<open>chunk.map\<close>: rejected, or fulfilled with \<open>null\<close> (\<open>None\<close>) or a
  record.\<close>

definition fetchItem :: "Network \<Rightarrow> FileRef \<Rightarrow> FileContent option Settled" where
  "fetchItem net file =
     (case net (file_url file) of
        Rejected \<Rightarrow> Rejected
      | Fulfilled response \<Rightarrow>
          if \<not> ok response then Fulfilled None
          else
            (case body response of
               Rejected \<Rightarrow> Rejected
             | Fulfilled payload \<Rightarrow>
                 if isImage (file_path file) then
                   Fulfilled (Some (FileContent (file_path file) (file_url file) ImageType
                     None (Some (payload_dataUrl payload)) (Some (payload_type payload))))
                 else
                   Fulfilled (Some (FileContent (file_path file) (file_url file) TextType
                     (Some (payload_text payload)) None None))))"

text \<open>\<open>Promise.all\<close>: rejected as soon as one of the promises is, otherwise fulfilled with
  all values in order.\<close>

fun Promise_all :: "'a Settled list \<Rightarrow> 'a list Settled" where
  "Promise_all [] = Fulfilled []"
| "Promise_all (Rejected # ps) = Rejected"
| "Promise_all (Fulfilled v # ps) =
     (case Promise_all ps of Rejected \<Rightarrow> Rejected | Fulfilled vs \<Rightarrow> Fulfilled (v # vs))"

text \<open>\<open>chunkResults.filter(Boolean)\<close>.\<close>

fun filterBoolean :: "'a option list \<Rightarrow> 'a list" where
  "filterBoolean [] = []"
| "filterBoolean (None # rs) = filterBoolean rs"
| "filterBoolean (Some r # rs) = r # filterBoolean rs"

text \<open>
  The \<open>for\<close> loop at index \<open>i\<close>. Besides \<open>results\<close> the model keeps the URLs that
  \<open>fetch\<close> was called with: every callback of a chunk calls \<open>fetch\<close> before its first
  \<open>await\<close>, so a chunk requests all its URLs even when one of them is rejected. A
  rejected \<open>Promise.all\<close> is thrown by the \<open>await\<close> and ends the function.
\<close>

function fetchLoop ::
  "Network \<Rightarrow> FileRef list \<Rightarrow> nat \<Rightarrow> string list \<Rightarrow> FileContent list
    \<Rightarrow> string list \<times> FileContent list Settled" where
  "fetchLoop net files i requested results =
     (if i < length files then
        (let chunk = slice i (i + CONCURRENCY_LIMIT) files;
             requested' = requested @ map file_url chunk
         in case Promise_all (map (fetchItem net) chunk) of
              Rejected \<Rightarrow> (requested', Rejected)
            | Fulfilled chunkResults \<Rightarrow>
                fetchLoop net files (i + CONCURRENCY_LIMIT) requested'
                  (results @ filterBoolean chunkResults))
      else (requested, Fulfilled results))"
  by pat_completeness auto
termination
  by (relation "measure (\<lambda>(net, files, i, requested, results). length files - i)")
    (auto simp: CONCURRENCY_LIMIT_def)

definition fetchFileContents ::
  "Network \<Rightarrow> FileRef list \<Rightarrow> string list \<times> FileContent list Settled" where
  "fetchFileContents net files = fetchLoop net files 0 [] []"

section \<open>generateOutput\<close>

datatype RepoDetails = RepoDetails (owner: string) (repo: string)

text \<open>What \<open>setError\<close> is given: the message of an \<open>Error\<close> the code made itself, or the
  message of whatever the network layer rejected with.\<close>

datatype ErrorShown = Message string | RejectionMessage

record AppState =
  treeData :: "TreeNode option"
  selection :: SelectionState
  activeRepoDetails :: "RepoDetails option"
  outputText :: string
  error :: "ErrorShown option"
  isGenerating :: bool

fun traverse :: "bool \<Rightarrow> SelectionState \<Rightarrow> TreeNode \<Rightarrow> FileRef list \<Rightarrow> FileRef list"
  and traverseChildren ::
    "bool \<Rightarrow> SelectionState \<Rightarrow> (string \<times> TreeNode) list \<Rightarrow> FileRef list \<Rightarrow> FileRef list"
  where
  "traverse pc sel (TreeNode nm p ty sh u cs) selectedFiles =
     traverseChildren pc sel cs
       (if ty = Blob \<and> truthy pc sel p then selectedFiles @ [FileRef p u] else selectedFiles)"
| "traverseChildren pc sel [] selectedFiles = selectedFiles"
| "traverseChildren pc sel ((k, child) # rest) selectedFiles =
     traverseChildren pc sel rest (traverse pc sel child selectedFiles)"

text \<open>The template literals. \<open>${x?.owner}\<close> of a missing \<open>x\<close> and \<open>${file.mimeType}\<close> of a
  missing field print \<open>undefined\<close>; \<open>file.text || ..\<close> takes the right operand when
  \<open>text\<close> is missing or empty.\<close>

definition printed :: "string option \<Rightarrow> string" where
  "printed v = (case v of None \<Rightarrow> ''undefined'' | Some s \<Rightarrow> s)"

definition header :: "RepoDetails option \<Rightarrow> string \<Rightarrow> string" where
  "header details index =
     ''REPOSITORY: '' @ printed (map_option owner details) @ ''/''
       @ printed (map_option repo details) @ ''\<newline>STRUCTURE:\<newline>'' @ index
       @ ''\<newline>\<newline>''"

definition fileBody :: "FileContent \<Rightarrow> string" where
  "fileBody file =
     (case content_text file of
        Some t \<Rightarrow>
          if t \<noteq> [] then t else ''[Binary/Image Data: '' @ printed (mimeType file) @ '']''
      | None \<Rightarrow> ''[Binary/Image Data: '' @ printed (mimeType file) @ '']'')"

definition fileSection :: "FileContent \<Rightarrow> string" where
  "fileSection file =
     ''\<newline>'' @ replicate 80 CHR ''='' @ ''\<newline>FILE: '' @ content_path file @ ''\<newline>''
       @ replicate 80 CHR ''='' @ ''\<newline>\<newline>'' @ fileBody file @ ''\<newline>''"

definition formatted :: "RepoDetails option \<Rightarrow> TreeNode \<Rightarrow> FileContent list \<Rightarrow> string" where
  "formatted details root contents =
     foldl (\<lambda>acc file. acc @ fileSection file)
       (header details (buildAsciiIndex root [] True)) contents"

text \<open>\<open>generateOutput\<close> as a function of the state of the render it was made in: the new
  state and the URLs requested on the way.\<close>

definition generateOutput :: "bool \<Rightarrow> Network \<Rightarrow> AppState \<Rightarrow> AppState \<times> string list" where
  "generateOutput pc net st =
     (case treeData st of
        None \<Rightarrow> (st, [])
      | Some root \<Rightarrow>
          (let selectedFiles = traverse pc (selection st) root []
           in if length selectedFiles = 0
              then (st\<lparr>error := Some (Message ''No files selected''), isGenerating := False\<rparr>, [])
              else
                (case fetchFileContents net selectedFiles of
                   (requested, Rejected) \<Rightarrow>
                     (st\<lparr>error := Some RejectionMessage, isGenerating := False\<rparr>, requested)
                 | (requested, Fulfilled contents) \<Rightarrow>
                     (st\<lparr>outputText := formatted (activeRepoDetails st) root contents,
                         isGenerating := False\<rparr>, requested))))"

section \<open>Notions used in the statements\<close>

text \<open>A full walk of a tree: the nodes of a subtree in preorder, and the descendants of
  the root (the root itself is not a path of the listing).\<close>

fun nodes :: "TreeNode \<Rightarrow> TreeNode list"
  and nodesOf :: "(string \<times> TreeNode) list \<Rightarrow> TreeNode list" where
  "nodes (TreeNode nm p ty sh u cs) = TreeNode nm p ty sh u cs # nodesOf cs"
| "nodesOf [] = []"
| "nodesOf ((k, child) # rest) = nodes child @ nodesOf rest"

definition walk :: "TreeNode \<Rightarrow> TreeNode list" where
  "walk root = nodesOf (children root)"

text \<open>The selected blob nodes among a list of nodes.\<close>

definition selectedNodes :: "bool \<Rightarrow> SelectionState \<Rightarrow> TreeNode list \<Rightarrow> TreeNode list" where
  "selectedNodes pc sel ns = filter (\<lambda>n. type n = Blob \<and> truthy pc sel (path n)) ns"

text \<open>The records of the files whose callback is fulfilled with a record, in order.\<close>

definition records :: "Network \<Rightarrow> FileRef list \<Rightarrow> FileContent list" where
  "records net files =
     concat (map (\<lambda>file. case fetchItem net file of
                            Fulfilled (Some r) \<Rightarrow> [r]
                          | _ \<Rightarrow> []) files)"

text \<open>
  The status derivation in the words of the specification: a blob is checked when it
  is selected and unchecked otherwise; a directory with no children is unchecked; a
  directory with children is checked when all children are, unchecked when all
  children are, and indeterminate otherwise.
\<close>

fun derivedStatus :: "bool \<Rightarrow> SelectionState \<Rightarrow> TreeNode \<Rightarrow> SelectionStatus"
  and childStatuses :: "bool \<Rightarrow> SelectionState \<Rightarrow> (string \<times> TreeNode) list \<Rightarrow> SelectionStatus list"
  where
  "derivedStatus pc sel (TreeNode nm p ty sh u cs) =
     (if ty = Blob then (if truthy pc sel p then Checked else Unchecked)
      else if cs = [] then Unchecked
      else if list_all (\<lambda>s. s = Checked) (childStatuses pc sel cs) then Checked
      else if list_all (\<lambda>s. s = Unchecked) (childStatuses pc sel cs) then Unchecked
      else Indeterminate)"
| "childStatuses pc sel [] = []"
| "childStatuses pc sel ((k, child) # rest) = derivedStatus pc sel child # childStatuses pc sel rest"

text \<open>The blob nodes among a list of nodes; \<open>blobs (nodes t)\<close> are the blob nodes of the
  subtree of \<open>t\<close>.\<close>

definition blobs :: "TreeNode list \<Rightarrow> TreeNode list" where
  "blobs ns = filter (\<lambda>n. type n = Blob) ns"

text \<open>Two shapes of trees: every blob is a leaf, and every directory has a child.\<close>

definition blobsAreLeaves :: "TreeNode list \<Rightarrow> bool" where
  "blobsAreLeaves ns = list_all (\<lambda>n. type n = Tree \<or> children n = []) ns"

definition noEmptyDirectory :: "TreeNode list \<Rightarrow> bool" where
  "noEmptyDirectory ns = list_all (\<lambda>n. type n = Blob \<or> children n \<noteq> []) ns"

text \<open>The segments of a record's path, and the lists in which no record comes after a
  record that lies below it: no later path is a proper prefix, by segments, of an earlier
  one. The hosting API lists a directory before its contents.\<close>

definition segments :: "GitHubItem \<Rightarrow> string list" where
  "segments item = split CHR ''/'' (item_path item)"

fun parentsFirst :: "GitHubItem list \<Rightarrow> bool" where
  "parentsFirst [] = True"
| "parentsFirst (item # later) =
     (list_all (\<lambda>l. \<not> strict_prefix (segments l) (segments item)) later \<and> parentsFirst later)"

text \<open>
  The rest of this section serves the proofs about \<open>buildTree\<close>. \<open>descend t ks\<close> follows
  the keys \<open>ks\<close> down from \<open>t\<close>; \<open>info\<close> is what a node carries besides its children;
  \<open>created item parts i ks\<close> is the content of the node that \<open>insertParts\<close> makes for
  the keys \<open>ks\<close> below position \<open>i\<close>; \<open>expected items ks\<close> is what the finished tree
  holds under the keys \<open>ks\<close>; \<open>entries\<close> lists the nodes of a subtree with their keys
  from the root.
\<close>

fun descend :: "TreeNode \<Rightarrow> string list \<Rightarrow> TreeNode option" where
  "descend t [] = Some t"
| "descend t (k # ks) =
     (case map_of (children t) k of None \<Rightarrow> None | Some c \<Rightarrow> descend c ks)"

definition info :: "TreeNode \<Rightarrow> string \<times> string \<times> kind \<times> string \<times> string" where
  "info n = (name n, path n, type n, sha n, url n)"

definition look :: "TreeNode \<Rightarrow> string list \<Rightarrow> (string \<times> string \<times> kind \<times> string \<times> string) option" where
  "look t ks = map_option info (descend t ks)"

definition created :: "GitHubItem \<Rightarrow> string list \<Rightarrow> nat \<Rightarrow> string list
    \<Rightarrow> string \<times> string \<times> kind \<times> string \<times> string" where
  "created item parts i ks =
     (last ks, join CHR ''/'' (take (i + length ks) parts),
      if i + length ks = length parts then item_type item else Tree,
      if i + length ks = length parts then item_sha item else [],
      if i + length ks = length parts then item_url item else [])"

definition recordOf :: "GitHubItem list \<Rightarrow> string list \<Rightarrow> kind \<times> string \<times> string" where
  "recordOf items ks =
     (case find (\<lambda>item. segments item = ks) items of
        Some item \<Rightarrow> (item_type item, item_sha item, item_url item)
      | None \<Rightarrow> (Tree, [], []))"

definition expected :: "GitHubItem list \<Rightarrow> string list
    \<Rightarrow> (string \<times> string \<times> kind \<times> string \<times> string) option" where
  "expected items ks =
     (if list_ex (\<lambda>item. prefix ks (segments item)) items
      then Some (last ks, join CHR ''/'' ks, recordOf items ks) else None)"

fun distinctKeys :: "TreeNode \<Rightarrow> bool"
  and distinctKeysOf :: "(string \<times> TreeNode) list \<Rightarrow> bool" where
  "distinctKeys (TreeNode nm p ty sh u cs) = (distinct (map fst cs) \<and> distinctKeysOf cs)"
| "distinctKeysOf [] = True"
| "distinctKeysOf ((k, child) # rest) = (distinctKeys child \<and> distinctKeysOf rest)"

fun entries :: "string list \<Rightarrow> TreeNode \<Rightarrow> (string list \<times> TreeNode) list"
  and entriesOf :: "string list \<Rightarrow> (string \<times> TreeNode) list \<Rightarrow> (string list \<times> TreeNode) list"
  where
  "entries ks (TreeNode nm p ty sh u cs) = (ks, TreeNode nm p ty sh u cs) # entriesOf ks cs"
| "entriesOf ks [] = []"
| "entriesOf ks ((k, child) # rest) = entries (ks @ [k]) child @ entriesOf ks rest"

section \<open>Facts about split and join\<close>

lemma split_not_Nil: "split sep s \<noteq> []"
  by (induction s) (auto split: list.splits)

lemma split_no_sep: "sep \<notin> set s \<Longrightarrow> split sep s = [s]"
  by (induction s) auto

lemma split_append:
  "split sep (pre @ sep # suf) = split sep pre @ split sep suf"
proof (induction pre)
  case Nil
  show ?case by simp
next
  case (Cons c pre)
  obtain p ps where "split sep pre = p # ps"
    using split_not_Nil [of sep pre] by (cases "split sep pre") auto
  with Cons show ?case by simp
qed

lemma last_split_append:
  "sep \<notin> set suf \<Longrightarrow> last (split sep (pre @ sep # suf)) = suf"
  by (simp add: split_append split_no_sep)

lemma extension_last: "extension p = toLowerCase (last (split CHR ''.'' p))"
proof -
  have "rev (split CHR ''.'' p) \<noteq> []"
    by (simp add: split_not_Nil)
  then obtain e es where r: "rev (split CHR ''.'' p) = e # es"
    by (cases "rev (split CHR ''.'' p)") auto
  then have "split CHR ''.'' p = rev es @ [e]"
    by (metis rev_rev_ident rev.simps(2))
  then have "last (split CHR ''.'' p) = e"
    by simp
  with r show ?thesis
    by (simp add: extension_def)
qed

lemma join_split: "join sep (split sep s) = s"
proof (induction s)
  case Nil
  show ?case by simp
next
  case (Cons c s)
  obtain p ps where sp: "split sep s = p # ps"
    using split_not_Nil [of sep s] by (cases "split sep s") auto
  show ?case
  proof (cases "c = sep")
    case True
    with Cons sp show ?thesis by simp
  next
    case False
    with Cons sp show ?thesis by (cases ps) auto
  qed
qed

lemma split_free: "p \<in> set (split sep s) \<Longrightarrow> sep \<notin> set p"
proof (induction s arbitrary: p)
  case Nil
  then show ?case by simp
next
  case (Cons c s)
  obtain q qs where sp: "split sep s = q # qs"
    using split_not_Nil [of sep s] by (cases "split sep s") auto
  with Cons show ?case
    by (cases "c = sep") auto
qed

lemma split_join:
  "ps \<noteq> [] \<Longrightarrow> \<forall>p\<in>set ps. sep \<notin> set p \<Longrightarrow> split sep (join sep ps) = ps"
proof (induction sep ps rule: join.induct)
  case (1 sep)
  then show ?case by simp
next
  case (2 sep p)
  then show ?case by (simp add: split_no_sep)
next
  case (3 sep p q ps)
  then have "split sep (join sep (q # ps)) = q # ps" by simp
  moreover have "split sep p = [p]" using 3 by (simp add: split_no_sep)
  ultimately show ?case
    by (simp add: split_append)
qed

lemma join_inj:
  assumes "ps \<noteq> []" "qs \<noteq> []" "\<forall>p\<in>set ps. sep \<notin> set p" "\<forall>p\<in>set qs. sep \<notin> set p"
    and "join sep ps = join sep qs"
  shows "ps = qs"
  using assms by (metis split_join)

lemma split_inj: "split sep s = split sep t \<Longrightarrow> s = t"
  by (metis join_split)

section \<open>Classification by extension (C10)\<close>

lemma extension_after_last_dot:
  "CHR ''.'' \<notin> set suf \<Longrightarrow> extension (pre @ ''.'' @ suf) = toLowerCase suf"
  by (simp add: extension_last last_split_append)

lemma extension_no_dot: "CHR ''.'' \<notin> set p \<Longrightarrow> extension p = toLowerCase p"
  by (simp add: extension_last split_no_sep)

lemma extension_trailing_dot: "extension (pre @ ''.'') = []"
  using extension_after_last_dot [of "[]" pre] by (simp add: toLowerCase_def)

lemma isImage_png: "isImage ''png''"
  by code_simp

lemma not_isImage_trailing_dot: "\<not> isImage (pre @ ''.'')"
  by (simp add: isImage_def extension_trailing_dot IMAGE_EXTENSIONS_def)

lemma fetchItem_ok:
  "net (file_url file) = Fulfilled (Response True (Fulfilled payload)) \<Longrightarrow>
   fetchItem net file =
     Fulfilled (Some
       (if isImage (file_path file)
        then FileContent (file_path file) (file_url file) ImageType
               None (Some (payload_dataUrl payload)) (Some (payload_type payload))
        else FileContent (file_path file) (file_url file) TextType
               (Some (payload_text payload)) None None))"
  by (simp add: fetchItem_def)

text \<open>
  C10. The extension of a path is the lower-cased text after its last \<open>.\<close>, and the
  whole lower-cased path when the path has no \<open>.\<close>; a file is classified as an image
  exactly when that extension is one of \<open>png\<close>, \<open>jpg\<close>, \<open>jpeg\<close>, \<open>gif\<close>, \<open>webp\<close>,
  \<open>ico\<close>. So a file whose whole path is \<open>png\<close> is an image, and a path that ends in
  \<open>.\<close> has the empty extension and is not. A successful response is turned into an
  image record for an image and into a text record otherwise.
\<close>

theorem extension_classification:
  "(isImage p \<longleftrightarrow>
      extension p \<in> {''png'', ''jpg'', ''jpeg'', ''gif'', ''webp'', ''ico''})
   \<and> (CHR ''.'' \<notin> set suf \<longrightarrow> extension (pre @ ''.'' @ suf) = toLowerCase suf)
   \<and> (CHR ''.'' \<notin> set p \<longrightarrow> extension p = toLowerCase p)
   \<and> isImage ''png''
   \<and> extension (pre @ ''.'') = [] \<and> \<not> isImage (pre @ ''.'')
   \<and> (net (file_url file) = Fulfilled (Response True (Fulfilled payload)) \<longrightarrow>
        (isImage (file_path file) \<longrightarrow>
           fetchItem net file =
             Fulfilled (Some (FileContent (file_path file) (file_url file) ImageType
               None (Some (payload_dataUrl payload)) (Some (payload_type payload)))))
        \<and> (\<not> isImage (file_path file) \<longrightarrow>
           fetchItem net file =
             Fulfilled (Some (FileContent (file_path file) (file_url file) TextType
               (Some (payload_text payload)) None None))))"
proof -
  have "isImage p \<longleftrightarrow>
      extension p \<in> {''png'', ''jpg'', ''jpeg'', ''gif'', ''webp'', ''ico''}"
    by (simp add: isImage_def IMAGE_EXTENSIONS_def)
  moreover have "CHR ''.'' \<notin> set suf \<longrightarrow> extension (pre @ ''.'' @ suf) = toLowerCase suf"
    using extension_after_last_dot by blast
  moreover have "CHR ''.'' \<notin> set p \<longrightarrow> extension p = toLowerCase p"
    using extension_no_dot by blast
  moreover note isImage_png extension_trailing_dot not_isImage_trailing_dot
  moreover have "net (file_url file) = Fulfilled (Response True (Fulfilled payload)) \<longrightarrow>
        (isImage (file_path file) \<longrightarrow>
           fetchItem net file =
             Fulfilled (Some (FileContent (file_path file) (file_url file) ImageType
               None (Some (payload_dataUrl payload)) (Some (payload_type payload)))))
        \<and> (\<not> isImage (file_path file) \<longrightarrow>
           fetchItem net file =
             Fulfilled (Some (FileContent (file_path file) (file_url file) TextType
               (Some (payload_text payload)) None None)))"
    by (simp add: fetchItem_ok)
  ultimately show ?thesis by blast
qed

lemma extension_logo: "extension ''img/Logo.PNG'' = ''png''"
  by code_simp

lemma toLowerCase_Makefile: "toLowerCase ''Makefile'' = ''makefile''"
  by code_simp

theorem extension_classification_witness:
  "isImage ''img/Logo.PNG''
   \<and> extension ''img/Logo.PNG'' = toLowerCase ''PNG''
   \<and> extension ''Makefile'' = ''makefile''
   \<and> fetchItem (\<lambda>u. Fulfilled (Response True (Fulfilled (Payload ''t'' ''data:'' ''image/png''))))
        (FileRef ''img/Logo.PNG'' ''u1'')
      = Fulfilled (Some (FileContent ''img/Logo.PNG'' ''u1'' ImageType
          None (Some ''data:'') (Some ''image/png'')))
   \<and> fetchItem (\<lambda>u. Fulfilled (Response True (Fulfilled (Payload ''t'' ''data:'' ''text/plain''))))
        (FileRef ''notes.'' ''u2'')
      = Fulfilled (Some (FileContent ''notes.'' ''u2'' TextType (Some ''t'') None None))"
proof -
  have a: "CHR ''.'' \<notin> set ''PNG''" and b: "CHR ''.'' \<notin> set ''Makefile''"
    by simp_all
  have c: "isImage ''img/Logo.PNG''"
    by (simp add: isImage_def extension_logo IMAGE_EXTENSIONS_def)
  have d: "\<not> isImage ''notes.''"
    using not_isImage_trailing_dot [of "''notes''"] by simp
  show ?thesis
    using a b c d toLowerCase_Makefile
      extension_classification [of "''Makefile''" "''PNG''" "''img/Logo''"
        "\<lambda>u. Fulfilled (Response True (Fulfilled (Payload ''t'' ''data:'' ''image/png'')))"
        "FileRef ''img/Logo.PNG'' ''u1''" "Payload ''t'' ''data:'' ''image/png''"]
      extension_classification [of "''Makefile''" "''PNG''" "''img/Logo''"
        "\<lambda>u. Fulfilled (Response True (Fulfilled (Payload ''t'' ''data:'' ''text/plain'')))"
        "FileRef ''notes.'' ''u2''" "Payload ''t'' ''data:'' ''text/plain''"]
    by simp
qed

section \<open>Degenerate input of buildTree (C9)\<close>

lemma inherited_empty: "\<not> inherited pc []"
  by (simp add: inherited_def Object_prototype_keys_def)

text \<open>
  C9, as the code has it. An empty record list gives a root with no children. A
  record whose path is the empty string does not: \<open>''.split('/')\<close> is \<open>['']\<close>, and the
  root gets one child whose name and path are empty and which carries the record's
  kind, sha and url.
\<close>

theorem buildTree_degenerate:
  "children (buildTree pc []) = []
   \<and> buildTree pc [GitHubItem [] ty sh u] =
       TreeNode ''root'' [] Tree [] [] [([], TreeNode [] [] ty sh u [])]"
  by (simp add: buildTree_def root_node_def newNode_def slice_def inherited_empty)

theorem buildTree_empty_path_counterexample:
  "children (buildTree False [GitHubItem [] Blob ''sha1'' ''url1'']) \<noteq> []"
  by (simp add: buildTree_def root_node_def newNode_def slice_def inherited_empty)

section \<open>Empty selection (C8)\<close>

lemma traverse_nodes:
  "traverse pc sel t acc =
     acc @ map (\<lambda>n. FileRef (path n) (url n)) (selectedNodes pc sel (nodes t))"
  "traverseChildren pc sel cs acc =
     acc @ map (\<lambda>n. FileRef (path n) (url n)) (selectedNodes pc sel (nodesOf cs))"
  by (induction pc sel t acc and pc sel cs acc rule: traverse_traverseChildren.induct)
    (simp_all add: selectedNodes_def)

text \<open>
  C8. When a tree is loaded and no blob node of it is selected, \<open>generateOutput\<close> ends
  with the error \<open>No files selected\<close>, has called \<open>fetch\<close> for no URL, and leaves the
  output (and everything else but the error and the busy flag) as it was.
\<close>

theorem empty_selection_fails_fast:
  assumes "treeData st = Some root"
    and "selectedNodes pc (selection st) (nodes root) = []"
  shows "generateOutput pc net st =
           (st\<lparr>error := Some (Message ''No files selected''), isGenerating := False\<rparr>, [])"
  using assms by (simp add: generateOutput_def traverse_nodes)

theorem empty_selection_fails_fast_witness:
  "generateOutput False (\<lambda>u. Rejected)
     \<lparr>treeData = Some (TreeNode ''root'' [] Tree [] []
                         [(''a.ts'', TreeNode ''a.ts'' ''a.ts'' Blob ''s1'' ''u1'' [])]),
      selection = [''a.ts'' \<mapsto> False], activeRepoDetails = None, outputText = ''old'',
      error = None, isGenerating = False\<rparr>
   = (\<lparr>treeData = Some (TreeNode ''root'' [] Tree [] []
                         [(''a.ts'', TreeNode ''a.ts'' ''a.ts'' Blob ''s1'' ''u1'' [])]),
       selection = [''a.ts'' \<mapsto> False], activeRepoDetails = None, outputText = ''old'',
       error = Some (Message ''No files selected''), isGenerating = False\<rparr>, [])"
  using empty_selection_fails_fast [of
      "\<lparr>treeData = Some (TreeNode ''root'' [] Tree [] []
                         [(''a.ts'', TreeNode ''a.ts'' ''a.ts'' Blob ''s1'' ''u1'' [])]),
        selection = [''a.ts'' \<mapsto> False], activeRepoDetails = None, outputText = ''old'',
        error = None, isGenerating = False\<rparr>"
      "TreeNode ''root'' [] Tree [] [] [(''a.ts'', TreeNode ''a.ts'' ''a.ts'' Blob ''s1'' ''u1'' [])]"
      False "\<lambda>u. Rejected"]
  by (simp add: selectedNodes_def truthy_def)

section \<open>Failures while fetching (C5)\<close>

lemma fetchLoop_step:
  "i < length files \<Longrightarrow>
   fetchLoop net files i requested results =
     (let chunk = slice i (i + CONCURRENCY_LIMIT) files;
          requested' = requested @ map file_url chunk
      in case Promise_all (map (fetchItem net) chunk) of
           Rejected \<Rightarrow> (requested', Rejected)
         | Fulfilled chunkResults \<Rightarrow>
             fetchLoop net files (i + CONCURRENCY_LIMIT) requested'
               (results @ filterBoolean chunkResults))"
  "\<not> i < length files \<Longrightarrow>
   fetchLoop net files i requested results = (requested, Fulfilled results)"
  by (subst fetchLoop.simps, simp)+

lemma Promise_all_no_rejection:
  "Rejected \<notin> set ps \<Longrightarrow> \<exists>vs. Promise_all ps = Fulfilled vs \<and> ps = map Fulfilled vs"
proof (induction ps)
  case Nil
  then show ?case by simp
next
  case (Cons p ps)
  then show ?case by (cases p) auto
qed

lemma Promise_all_rejection: "Rejected \<in> set ps \<Longrightarrow> Promise_all ps = Rejected"
proof (induction ps)
  case Nil
  then show ?case by simp
next
  case (Cons p ps)
  then show ?case by (cases p) (auto split: Settled.splits)
qed

lemma filterBoolean_records:
  "map (fetchItem net) files = map Fulfilled vs \<Longrightarrow> filterBoolean vs = records net files"
proof (induction files arbitrary: vs)
  case Nil
  then show ?case by (simp add: records_def)
next
  case (Cons f files)
  then obtain v vs' where vs: "vs = v # vs'" "fetchItem net f = Fulfilled v"
      "map (fetchItem net) files = map Fulfilled vs'"
    by (cases vs) auto
  with Cons.IH [of vs'] show ?case
    by (cases v) (simp_all add: records_def)
qed

lemma records_append: "records net (xs @ ys) = records net xs @ records net ys"
  by (simp add: records_def)

lemma slice_drop: "slice i (i + n) xs @ drop (i + n) xs = drop i xs"
  by (simp add: slice_def) (metis add.commute append_take_drop_id drop_drop)

lemma fetchLoop_no_rejection:
  assumes "\<forall>file\<in>set files. fetchItem net file \<noteq> Rejected"
  shows "fetchLoop net files i requested results =
           (requested @ map file_url (drop i files),
            Fulfilled (results @ records net (drop i files)))"
  using assms
proof (induction net files i requested results rule: fetchLoop.induct)
  case (1 net files i requested results)
  show ?case
  proof (cases "i < length files")
    case False
    then show ?thesis by (simp add: fetchLoop_step records_def)
  next
    case True
    let ?chunk = "slice i (i + CONCURRENCY_LIMIT) files"
    have sub: "set ?chunk \<subseteq> set files"
      by (auto simp: slice_def dest: in_set_takeD in_set_dropD)
    have "Rejected \<notin> set (map (fetchItem net) ?chunk)"
    proof
      assume "Rejected \<in> set (map (fetchItem net) ?chunk)"
      then obtain x where "x \<in> set ?chunk" "fetchItem net x = Rejected"
        by auto
      with sub "1.prems" show False
        by blast
    qed
    then obtain vs where vs: "Promise_all (map (fetchItem net) ?chunk) = Fulfilled vs"
      "map (fetchItem net) ?chunk = map Fulfilled vs"
      using Promise_all_no_rejection by blast
    have fb: "filterBoolean vs = records net ?chunk"
      using vs(2) by (rule filterBoolean_records)
    have step: "fetchLoop net files i requested results =
        fetchLoop net files (i + CONCURRENCY_LIMIT) (requested @ map file_url ?chunk)
          (results @ filterBoolean vs)"
      using True vs(1) by (simp add: fetchLoop_step(1) Let_def)
    have ih: "fetchLoop net files (i + CONCURRENCY_LIMIT) (requested @ map file_url ?chunk)
          (results @ filterBoolean vs) =
         ((requested @ map file_url ?chunk)
            @ map file_url (drop (i + CONCURRENCY_LIMIT) files),
          Fulfilled ((results @ filterBoolean vs)
            @ records net (drop (i + CONCURRENCY_LIMIT) files)))"
      using "1.IH" [OF True refl refl vs(1)] "1.prems" by simp
    have m: "map file_url ?chunk @ map file_url (drop (i + CONCURRENCY_LIMIT) files)
        = map file_url (drop i files)"
      by (simp add: slice_drop flip: map_append)
    have r: "records net ?chunk @ records net (drop (i + CONCURRENCY_LIMIT) files)
        = records net (drop i files)"
      by (simp add: slice_drop flip: records_append)
    show ?thesis
      using step ih fb m r by simp
  qed
qed

text \<open>A window of the loop holds at most \<open>CONCURRENCY_LIMIT\<close> files.\<close>

lemma window_size: "length (slice i (i + CONCURRENCY_LIMIT) files) \<le> CONCURRENCY_LIMIT"
  by (simp add: slice_def)

text \<open>The part of C5 that the code keeps: as long as no promise is rejected, a response
  that is not \<open>ok\<close> gives no record, every other file gives its record, in input order,
  and every URL is requested.\<close>

lemma fetchFileContents_no_rejection:
  assumes "\<forall>file\<in>set files. fetchItem net file \<noteq> Rejected"
  shows "fetchFileContents net files = (map file_url files, Fulfilled (records net files))"
  using fetchLoop_no_rejection [OF assms, of 0 "[]" "[]"]
  by (simp add: fetchFileContents_def)

lemma fetchItem_not_ok:
  "net (file_url file) = Fulfilled (Response False b) \<Longrightarrow> fetchItem net file = Fulfilled None"
  by (simp add: fetchItem_def)

lemma fetchItem_network_error:
  "net (file_url file) = Rejected \<Longrightarrow> fetchItem net file = Rejected"
  by (simp add: fetchItem_def)

text \<open>A rejected promise in the first window rejects the whole call.\<close>

lemma fetchFileContents_rejection:
  assumes "file \<in> set (take CONCURRENCY_LIMIT files)" and "fetchItem net file = Rejected"
  shows "snd (fetchFileContents net files) = Rejected"
proof -
  let ?chunk = "slice 0 (0 + CONCURRENCY_LIMIT) files"
  have "0 < length files"
    using assms(1) by (cases files) auto
  moreover have "Rejected \<in> set (map (fetchItem net) ?chunk)"
    using assms by (force simp: slice_def)
  then have "Promise_all (map (fetchItem net) ?chunk) = Rejected"
    by (rule Promise_all_rejection)
  ultimately show ?thesis
    by (simp add: fetchFileContents_def fetchLoop_step(1) Let_def)
qed

lemma not_isImage_a_txt: "\<not> isImage ''a.txt''"
  by code_simp

text \<open>
  C5, at a failing input. Two files are requested; the first is answered with status
  200, the \<open>fetch\<close> of the second is rejected (a network error). The claim asks for the
  record of the first file. The code returns nothing: the rejection passes through
  \<open>Promise.all\<close> and the \<open>await\<close>, and \<open>generateOutput\<close> shows an error and no output.
\<close>

theorem network_error_aborts_batch:
  "fetchFileContents
     (\<lambda>u. if u = ''u1'' then Fulfilled (Response True (Fulfilled (Payload ''hello'' ''data:'' ''text/plain'')))
          else Rejected)
     [FileRef ''a.txt'' ''u1'', FileRef ''b.txt'' ''u2'']
   = ([''u1'', ''u2''], Rejected)"
  by (simp add: fetchFileContents_def fetchLoop_step slice_def CONCURRENCY_LIMIT_def
      fetchItem_def not_isImage_a_txt)

section \<open>The assembled text (C7)\<close>

lemma foldl_sections:
  "foldl (\<lambda>acc file. acc @ fileSection file) start contents
     = start @ concat (map fileSection contents)"
  by (induction contents arbitrary: start) simp_all

text \<open>The shape of the output: the header with the repository and the index, then one
  section per record, in order.\<close>

lemma formatted_sections:
  "formatted details root contents =
     header details (buildAsciiIndex root [] True) @ concat (map fileSection contents)"
  by (simp add: formatted_def foldl_sections)

lemma fileBody_text:
  "content_text file = Some t \<Longrightarrow> t \<noteq> [] \<Longrightarrow> fileBody file = t"
  by (simp add: fileBody_def)

lemma fileBody_binary:
  "content_text file = None \<Longrightarrow>
   fileBody file = ''[Binary/Image Data: '' @ printed (mimeType file) @ '']''"
  by (simp add: fileBody_def)

lemma not_isImage_init_py: "\<not> isImage ''pkg/__init__.py''"
  by code_simp

text \<open>
  C7, at a failing input. An empty text file is fetched as a text record whose text is
  the empty string. Its section does not inline that text: \<open>file.text || ..\<close> takes the
  empty string for a missing text and prints the placeholder of a binary file, with the
  missing MIME type printed as \<open>undefined\<close>.
\<close>

theorem empty_text_file_shown_as_binary:
  "fetchItem (\<lambda>u. Fulfilled (Response True (Fulfilled (Payload [] ''data:'' ''text/x-python''))))
     (FileRef ''pkg/__init__.py'' ''u1'')
     = Fulfilled (Some (FileContent ''pkg/__init__.py'' ''u1'' TextType (Some []) None None))
   \<and> fileSection (FileContent ''pkg/__init__.py'' ''u1'' TextType (Some []) None None)
     = ''\<newline>'' @ replicate 80 CHR ''='' @ ''\<newline>FILE: pkg/__init__.py\<newline>''
         @ replicate 80 CHR ''='' @ ''\<newline>\<newline>[Binary/Image Data: undefined]\<newline>''"
  by (simp add: fetchItem_def not_isImage_init_py fileSection_def fileBody_def printed_def)

section \<open>The order of the index (C4)\<close>

text \<open>
  C4, at a failing input. The listing of a repository with a file \<open>README.md\<close> and a
  directory \<open>src\<close> holding \<open>a.ts\<close>, in the order of the hosting API, is rendered with
  the file before the directory; the same entries with the directory first are rendered
  in that other order. \<open>buildAsciiIndex\<close> follows the order of the children object and
  sorts nothing.
\<close>

theorem index_follows_input_order:
  "buildAsciiIndex
     (buildTree False
        [GitHubItem ''README.md'' Blob ''s1'' ''u1'', GitHubItem ''src'' Tree ''s2'' ''u2'',
         GitHubItem ''src/a.ts'' Blob ''s3'' ''u3'']) [] True
     = connectorMiddle @ ''README.md\<newline>''
       @ connectorLast @ ''src\<newline>''
       @ ''    '' @ connectorLast @ ''a.ts\<newline>''
   \<and> buildAsciiIndex
     (buildTree False
        [GitHubItem ''src'' Tree ''s2'' ''u2'', GitHubItem ''src/a.ts'' Blob ''s3'' ''u3'',
         GitHubItem ''README.md'' Blob ''s1'' ''u1'']) [] True
     = connectorMiddle @ ''src\<newline>''
       @ continuationBar @ connectorLast @ ''a.ts\<newline>''
       @ connectorLast @ ''README.md\<newline>''"
  by code_simp

section \<open>The derived status map (C3)\<close>

lemma compute_unfold:
  "compute pc sel (TreeNode nm p ty sh u cs) m =
     (if ty = Blob then
        ((if truthy pc sel p then Checked else Unchecked),
         assign m p (if truthy pc sel p then Checked else Unchecked))
      else if cs = [] then (Unchecked, assign m p Unchecked)
      else
        ((if list_all (\<lambda>s. s = Checked) (fst (computeChildren pc sel cs m)) then Checked
          else if list_all (\<lambda>s. s = Unchecked) (fst (computeChildren pc sel cs m))
               then Unchecked else Indeterminate),
         assign (snd (computeChildren pc sel cs m)) p
           (if list_all (\<lambda>s. s = Checked) (fst (computeChildren pc sel cs m)) then Checked
            else if list_all (\<lambda>s. s = Unchecked) (fst (computeChildren pc sel cs m))
                 then Unchecked else Indeterminate)))"
  by (simp add: Let_def case_prod_beta)

lemma computeChildren_unfold:
  "computeChildren pc sel ((k, child) # rest) m =
     (fst (compute pc sel child m)
        # fst (computeChildren pc sel rest (snd (compute pc sel child m))),
      snd (computeChildren pc sel rest (snd (compute pc sel child m))))"
  by (simp add: Let_def case_prod_beta)

lemma compute_fst:
  "fst (compute pc sel t m) = derivedStatus pc sel t"
  "fst (computeChildren pc sel cs m) = childStatuses pc sel cs"
proof (induction pc sel t m and pc sel cs m rule: compute_computeChildren.induct)
  case (1 pc sel nm p ty sh u cs m)
  then show ?case
    by (simp add: compute_unfold del: compute.simps)
next
  case (2 pc sel m)
  show ?case by simp
next
  case (3 pc sel k child rest m)
  from "3.IH"(2) [OF refl prod.collapse] "3.IH"(1)
  show ?case
    by (simp add: computeChildren_unfold del: computeChildren.simps)
qed

lemma assign_other: "k \<noteq> key \<Longrightarrow> assign m key v k = m k"
  by (simp add: assign_def)

lemma assign_same: "key \<noteq> ''__proto__'' \<Longrightarrow> assign m key v key = Some v"
  by (simp add: assign_def)

lemma compute_frame:
  "k \<notin> path ` set (nodes t) \<Longrightarrow> snd (compute pc sel t m) k = m k"
  "k \<notin> path ` set (nodesOf cs) \<Longrightarrow> snd (computeChildren pc sel cs m) k = m k"
proof (induction pc sel t m and pc sel cs m rule: compute_computeChildren.induct)
  case (1 pc sel nm p ty sh u cs m)
  then show ?case
    by (simp add: compute_unfold assign_other del: compute.simps)
next
  case (2 pc sel m)
  show ?case by simp
next
  case (3 pc sel k' child rest m)
  from "3.prems" have a: "k \<notin> path ` set (nodes child)" and b: "k \<notin> path ` set (nodesOf rest)"
    by auto
  from "3.IH"(2) [OF refl prod.collapse b] "3.IH"(1) [OF a]
  show ?case
    by (simp add: computeChildren_unfold del: computeChildren.simps)
qed

lemma nodes_unfold: "nodes t = t # nodesOf (children t)"
  by (cases t) simp

lemma compute_entries:
  "distinct (map path (nodes t)) \<Longrightarrow> ''__proto__'' \<notin> path ` set (nodes t) \<Longrightarrow>
   blobsAreLeaves (nodes t) \<Longrightarrow> n \<in> set (nodes t) \<Longrightarrow>
   snd (compute pc sel t m) (path n) = Some (derivedStatus pc sel n)"
  "distinct (map path (nodesOf cs)) \<Longrightarrow> ''__proto__'' \<notin> path ` set (nodesOf cs) \<Longrightarrow>
   blobsAreLeaves (nodesOf cs) \<Longrightarrow> n \<in> set (nodesOf cs) \<Longrightarrow>
   snd (computeChildren pc sel cs m) (path n) = Some (derivedStatus pc sel n)"
proof (induction pc sel t m and pc sel cs m arbitrary: n and n rule: compute_computeChildren.induct)
  case (1 pc sel nm p ty sh u cs m)
  let ?t = "TreeNode nm p ty sh u cs"
  show ?case
  proof (cases "n = ?t")
    case True
    have "p \<noteq> ''__proto__''" using "1.prems"(2) by auto
    then have "snd (compute pc sel ?t m) p = Some (fst (compute pc sel ?t m))"
      by (simp add: compute_unfold assign_same del: compute.simps)
    with True show ?thesis
      by (simp add: compute_fst del: compute.simps derivedStatus.simps)
  next
    case False
    with "1.prems"(4) have n: "n \<in> set (nodesOf cs)" by simp
    then have cs: "cs \<noteq> []" by auto
    with "1.prems"(3) have ty: "ty \<noteq> Blob"
      by (auto simp: blobsAreLeaves_def)
    from n "1.prems"(1) have np: "path n \<noteq> p" by auto
    have "snd (computeChildren pc sel cs m) (path n) = Some (derivedStatus pc sel n)"
      using "1.IH" [OF ty cs _ _ _ n] "1.prems" by (simp add: blobsAreLeaves_def)
    with ty cs np show ?thesis
      by (simp add: compute_unfold assign_other del: compute.simps)
  qed
next
  case (2 pc sel m)
  then show ?case by simp
next
  case (3 pc sel k child rest m)
  let ?m1 = "snd (compute pc sel child m)"
  have d1: "distinct (map path (nodes child))" and d2: "distinct (map path (nodesOf rest))"
    and dj: "path ` set (nodes child) \<inter> path ` set (nodesOf rest) = {}"
    using "3.prems"(1) by auto
  have p1: "''__proto__'' \<notin> path ` set (nodes child)" and p2: "''__proto__'' \<notin> path ` set (nodesOf rest)"
    using "3.prems"(2) by auto
  have b1: "blobsAreLeaves (nodes child)" and b2: "blobsAreLeaves (nodesOf rest)"
    using "3.prems"(3) by (auto simp: blobsAreLeaves_def)
  from "3.prems"(4) consider "n \<in> set (nodes child)" | "n \<in> set (nodesOf rest)"
    by auto
  then show ?case
  proof cases
    case 1
    with dj have "path n \<notin> path ` set (nodesOf rest)" by auto
    then have "snd (computeChildren pc sel rest ?m1) (path n) = ?m1 (path n)"
      by (rule compute_frame(2))
    also have "\<dots> = Some (derivedStatus pc sel n)"
      using "3.IH"(1) [OF d1 p1 b1 1] .
    finally show ?thesis
      by (simp add: computeChildren_unfold del: computeChildren.simps)
  next
    case 2
    from "3.IH"(2) [OF refl prod.collapse d2 p2 b2 2]
    show ?thesis
      by (simp add: computeChildren_unfold del: computeChildren.simps)
  qed
qed

lemma kind_not_Blob: "ty \<noteq> Blob \<longleftrightarrow> ty = Tree"
  by (cases ty) simp_all

lemma derivedStatus_leaves:
  "blobsAreLeaves (nodes t) \<Longrightarrow> noEmptyDirectory (nodes t) \<Longrightarrow>
   blobs (nodes t) \<noteq> []
   \<and> (derivedStatus pc sel t = Checked \<longleftrightarrow> (\<forall>b\<in>set (blobs (nodes t)). truthy pc sel (path b)))
   \<and> (derivedStatus pc sel t = Unchecked \<longleftrightarrow>
        (\<forall>b\<in>set (blobs (nodes t)). \<not> truthy pc sel (path b)))"
  "blobsAreLeaves (nodesOf cs) \<Longrightarrow> noEmptyDirectory (nodesOf cs) \<Longrightarrow>
   (cs \<noteq> [] \<longrightarrow> blobs (nodesOf cs) \<noteq> [])
   \<and> (list_all (\<lambda>s. s = Checked) (childStatuses pc sel cs) \<longleftrightarrow>
        (\<forall>b\<in>set (blobs (nodesOf cs)). truthy pc sel (path b)))
   \<and> (list_all (\<lambda>s. s = Unchecked) (childStatuses pc sel cs) \<longleftrightarrow>
        (\<forall>b\<in>set (blobs (nodesOf cs)). \<not> truthy pc sel (path b)))"
proof (induction t and cs rule: nodes_nodesOf.induct)
  case (1 nm p ty sh u cs)
  show ?case
  proof (cases ty)
    case Blob
    with "1.prems" have "cs = []"
      by (simp add: blobsAreLeaves_def)
    with Blob show ?thesis
      by (simp add: blobs_def)
  next
    case Tree
    with "1.prems" have cs: "cs \<noteq> []" and b: "blobsAreLeaves (nodesOf cs)"
      and e: "noEmptyDirectory (nodesOf cs)"
      by (simp_all add: blobsAreLeaves_def noEmptyDirectory_def)
    note ih = "1.IH" [OF b e]
    from ih cs have ne: "blobs (nodesOf cs) \<noteq> []" by blast
    then obtain b0 where b0: "b0 \<in> set (blobs (nodesOf cs))"
      by (cases "blobs (nodesOf cs)") auto
    have excl: "\<not> ((\<forall>b\<in>set (blobs (nodesOf cs)). truthy pc sel (path b))
        \<and> (\<forall>b\<in>set (blobs (nodesOf cs)). \<not> truthy pc sel (path b)))"
      using b0 by blast
    from Tree cs ih ne excl show ?thesis
      by (simp add: blobs_def) blast
  qed
next
  case 2
  show ?case by (simp add: blobs_def)
next
  case (3 k child rest)
  from "3.prems" have b1: "blobsAreLeaves (nodes child)" and b2: "blobsAreLeaves (nodesOf rest)"
    and e1: "noEmptyDirectory (nodes child)" and e2: "noEmptyDirectory (nodesOf rest)"
    by (simp_all add: blobsAreLeaves_def noEmptyDirectory_def)
  from "3.IH"(1) [OF b1 e1] "3.IH"(2) [OF b2 e2] show ?case
    by (simp add: blobs_def ball_Un) 
qed


lemma nodes_self: "t \<in> set (nodes t)"
  by (cases t) simp

lemma nodes_subtree:
  "n \<in> set (nodes t) \<Longrightarrow> set (nodes n) \<subseteq> set (nodes t)"
  "n \<in> set (nodesOf cs) \<Longrightarrow> set (nodes n) \<subseteq> set (nodesOf cs)"
  by (induction t and cs rule: nodes_nodesOf.induct) auto

lemma nodesOf_children: "(k, c) \<in> set cs \<Longrightarrow> set (nodes c) \<subseteq> set (nodesOf cs)"
  by (induction cs) auto

lemma children_in_nodes:
  assumes "c \<in> set (Object_values (children t))"
  shows "c \<in> set (nodes t)"
proof -
  from assms obtain k where "(k, c) \<in> set (children t)"
    by (auto simp: Object_values_def)
  then have "set (nodes c) \<subseteq> set (nodesOf (children t))"
    by (rule nodesOf_children)
  with nodes_self [of c] have "c \<in> set (nodesOf (children t))"
    by blast
  then show ?thesis
    by (cases t) simp
qed

lemma childStatuses_map:
  "childStatuses pc sel cs = map (derivedStatus pc sel) (Object_values cs)"
  by (induction cs) (auto simp: Object_values_def)

lemma derivedStatus_children:
  assumes "type t = Tree" and "children t \<noteq> []"
  shows "derivedStatus pc sel t =
     (if \<forall>c\<in>set (Object_values (children t)). derivedStatus pc sel c = Checked then Checked
      else if \<forall>c\<in>set (Object_values (children t)). derivedStatus pc sel c = Unchecked
           then Unchecked else Indeterminate)"
  using assms by (cases t) (simp add: childStatuses_map list_all_iff)

lemma selectionStatusMap_entry:
  assumes "distinct (map path (nodes root))"
    and "''__proto__'' \<notin> set (map path (nodes root))"
    and "blobsAreLeaves (nodes root)"
    and "n \<in> set (nodes root)"
  shows "selectionStatusMap pc (Some root) sel (path n) = Some (derivedStatus pc sel n)"
  using assms compute_entries(1) [of root n pc sel Map.empty]
  by (simp add: selectionStatusMap_def)

text \<open>
  C3, as the code has it. In a tree whose node paths are pairwise distinct and none of
  them \<open>__proto__\<close>, and whose blobs are leaves, the status map has an entry for the
  path of every node \<open>n\<close>: for a blob it is checked exactly when the blob is selected,
  and unchecked otherwise; for a directory with no children it is unchecked; for a
  directory with children it is checked exactly when the entries of all children are,
  unchecked exactly when the entries of all children are, and indeterminate otherwise.
  For a directory below which no directory is empty this is the same as: checked
  exactly when every blob below it is selected, unchecked exactly when none is,
  indeterminate exactly when some are and some are not.
\<close>

theorem status_map_derivation:
  fixes pc :: bool and sel :: SelectionState and root n :: TreeNode
  assumes "distinct (map path (nodes root))"
    and "''__proto__'' \<notin> set (map path (nodes root))"
    and "blobsAreLeaves (nodes root)"
    and "n \<in> set (nodes root)"
  defines "sm \<equiv> selectionStatusMap pc (Some root) sel"
  shows "(type n = Blob \<longrightarrow>
            (sm (path n) = Some Checked \<longleftrightarrow> truthy pc sel (path n))
          \<and> (sm (path n) = Some Unchecked \<longleftrightarrow> \<not> truthy pc sel (path n)))
    \<and> (type n = Tree \<and> children n = [] \<longrightarrow> sm (path n) = Some Unchecked)
    \<and> (type n = Tree \<and> children n \<noteq> [] \<longrightarrow>
            (sm (path n) = Some Checked \<longleftrightarrow>
               (\<forall>c\<in>set (Object_values (children n)). sm (path c) = Some Checked))
          \<and> (sm (path n) = Some Unchecked \<longleftrightarrow>
               (\<forall>c\<in>set (Object_values (children n)). sm (path c) = Some Unchecked))
          \<and> (sm (path n) = Some Indeterminate \<longleftrightarrow>
               (\<exists>c\<in>set (Object_values (children n)). sm (path c) \<noteq> Some Checked)
             \<and> (\<exists>c\<in>set (Object_values (children n)). sm (path c) \<noteq> Some Unchecked)))
    \<and> (type n = Tree \<and> noEmptyDirectory (nodes n) \<longrightarrow>
            (sm (path n) = Some Checked \<longleftrightarrow>
               (\<forall>b\<in>set (blobs (nodes n)). truthy pc sel (path b)))
          \<and> (sm (path n) = Some Unchecked \<longleftrightarrow>
               (\<forall>b\<in>set (blobs (nodes n)). \<not> truthy pc sel (path b)))
          \<and> (sm (path n) = Some Indeterminate \<longleftrightarrow>
               (\<exists>b\<in>set (blobs (nodes n)). truthy pc sel (path b))
             \<and> (\<exists>b\<in>set (blobs (nodes n)). \<not> truthy pc sel (path b))))"
proof -
  have entry: "sm (path x) = Some (derivedStatus pc sel x)" if "x \<in> set (nodes root)" for x
    unfolding sm_def using assms(1-3) that by (rule selectionStatusMap_entry)
  have sub: "set (nodes n) \<subseteq> set (nodes root)"
    using assms(4) by (rule nodes_subtree)
  have child: "sm (path c) = Some (derivedStatus pc sel c)"
    if "c \<in> set (Object_values (children n))" for c
    using that children_in_nodes sub entry by blast
  have leafn: "blobsAreLeaves (nodes n)"
    using assms(3) sub by (auto simp: blobsAreLeaves_def list_all_iff)
  have blob: "type n = Blob \<longrightarrow>
            (sm (path n) = Some Checked \<longleftrightarrow> truthy pc sel (path n))
          \<and> (sm (path n) = Some Unchecked \<longleftrightarrow> \<not> truthy pc sel (path n))"
    using entry [OF assms(4)] by (cases n) simp
  have empty: "type n = Tree \<and> children n = [] \<longrightarrow> sm (path n) = Some Unchecked"
    using entry [OF assms(4)] by (cases n) simp
  have kids: "type n = Tree \<and> children n \<noteq> [] \<longrightarrow>
            (sm (path n) = Some Checked \<longleftrightarrow>
               (\<forall>c\<in>set (Object_values (children n)). sm (path c) = Some Checked))
          \<and> (sm (path n) = Some Unchecked \<longleftrightarrow>
               (\<forall>c\<in>set (Object_values (children n)). sm (path c) = Some Unchecked))
          \<and> (sm (path n) = Some Indeterminate \<longleftrightarrow>
               (\<exists>c\<in>set (Object_values (children n)). sm (path c) \<noteq> Some Checked)
             \<and> (\<exists>c\<in>set (Object_values (children n)). sm (path c) \<noteq> Some Unchecked))"
  proof (intro impI, elim conjE)
    assume t: "type n = Tree" and c: "children n \<noteq> []"
    obtain c0 where c0: "c0 \<in> set (Object_values (children n))"
      using c by (cases "children n") (auto simp: Object_values_def)
    show "(sm (path n) = Some Checked \<longleftrightarrow>
               (\<forall>c\<in>set (Object_values (children n)). sm (path c) = Some Checked))
          \<and> (sm (path n) = Some Unchecked \<longleftrightarrow>
               (\<forall>c\<in>set (Object_values (children n)). sm (path c) = Some Unchecked))
          \<and> (sm (path n) = Some Indeterminate \<longleftrightarrow>
               (\<exists>c\<in>set (Object_values (children n)). sm (path c) \<noteq> Some Checked)
             \<and> (\<exists>c\<in>set (Object_values (children n)). sm (path c) \<noteq> Some Unchecked))"
      using c0 by (auto simp: entry [OF assms(4)] child derivedStatus_children [OF t c])
  qed
  have leaves: "type n = Tree \<and> noEmptyDirectory (nodes n) \<longrightarrow>
            (sm (path n) = Some Checked \<longleftrightarrow>
               (\<forall>b\<in>set (blobs (nodes n)). truthy pc sel (path b)))
          \<and> (sm (path n) = Some Unchecked \<longleftrightarrow>
               (\<forall>b\<in>set (blobs (nodes n)). \<not> truthy pc sel (path b)))
          \<and> (sm (path n) = Some Indeterminate \<longleftrightarrow>
               (\<exists>b\<in>set (blobs (nodes n)). truthy pc sel (path b))
             \<and> (\<exists>b\<in>set (blobs (nodes n)). \<not> truthy pc sel (path b)))"
  proof (intro impI, elim conjE)
    assume e: "noEmptyDirectory (nodes n)"
    note d = derivedStatus_leaves(1) [OF leafn e, of pc sel]
    show "(sm (path n) = Some Checked \<longleftrightarrow>
               (\<forall>b\<in>set (blobs (nodes n)). truthy pc sel (path b)))
          \<and> (sm (path n) = Some Unchecked \<longleftrightarrow>
               (\<forall>b\<in>set (blobs (nodes n)). \<not> truthy pc sel (path b)))
          \<and> (sm (path n) = Some Indeterminate \<longleftrightarrow>
               (\<exists>b\<in>set (blobs (nodes n)). truthy pc sel (path b))
             \<and> (\<exists>b\<in>set (blobs (nodes n)). \<not> truthy pc sel (path b)))"
      using d by (cases "derivedStatus pc sel n") (auto simp: entry [OF assms(4)])
  qed
  from blob empty kids leaves show ?thesis by blast
qed

text \<open>
  The claim as stated fails where a directory is empty: a directory \<open>d\<close> with a
  selected file and an empty directory in it is indeterminate although every blob below
  it is selected.
\<close>

theorem empty_directory_counterexample:
  "buildTree False
     [GitHubItem ''d/x.ts'' Blob ''s1'' ''u1'', GitHubItem ''d/e'' Tree ''s2'' ''u2'']
     = TreeNode ''root'' [] Tree [] []
         [(''d'', TreeNode ''d'' ''d'' Tree [] []
            [(''x.ts'', TreeNode ''x.ts'' ''d/x.ts'' Blob ''s1'' ''u1'' []),
             (''e'', TreeNode ''e'' ''d/e'' Tree ''s2'' ''u2'' [])])]
   \<and> selectionStatusMap False
        (Some (TreeNode ''root'' [] Tree [] []
         [(''d'', TreeNode ''d'' ''d'' Tree [] []
            [(''x.ts'', TreeNode ''x.ts'' ''d/x.ts'' Blob ''s1'' ''u1'' []),
             (''e'', TreeNode ''e'' ''d/e'' Tree ''s2'' ''u2'' [])])]))
        [''d/x.ts'' \<mapsto> True] ''d'' = Some Indeterminate
   \<and> blobs (nodes (TreeNode ''d'' ''d'' Tree [] []
            [(''x.ts'', TreeNode ''x.ts'' ''d/x.ts'' Blob ''s1'' ''u1'' []),
             (''e'', TreeNode ''e'' ''d/e'' Tree ''s2'' ''u2'' [])]))
       = [TreeNode ''x.ts'' ''d/x.ts'' Blob ''s1'' ''u1'' []]
   \<and> truthy False [''d/x.ts'' \<mapsto> True] ''d/x.ts''"
  by (simp add: buildTree_def root_node_def newNode_def slice_def inherited_def
      Object_prototype_keys_def pollutes_def isArrayIndex_def isDigit_def
      selectionStatusMap_def assign_def truthy_def blobs_def)

theorem status_map_derivation_witness:
  "selectionStatusMap False
     (Some (TreeNode ''root'' [] Tree [] []
        [(''d'', TreeNode ''d'' ''d'' Tree [] []
           [(''x.ts'', TreeNode ''x.ts'' ''d/x.ts'' Blob ''s1'' ''u1'' [])])]))
     [''d/x.ts'' \<mapsto> True] ''d'' = Some Checked"
  using status_map_derivation [of
      "TreeNode ''root'' [] Tree [] []
        [(''d'', TreeNode ''d'' ''d'' Tree [] []
           [(''x.ts'', TreeNode ''x.ts'' ''d/x.ts'' Blob ''s1'' ''u1'' [])])]"
      "TreeNode ''d'' ''d'' Tree [] []
           [(''x.ts'', TreeNode ''x.ts'' ''d/x.ts'' Blob ''s1'' ''u1'' [])]"
      False "[''d/x.ts'' \<mapsto> True]"]
  by (simp add: blobsAreLeaves_def noEmptyDirectory_def blobs_def truthy_def)

section \<open>Toggling (C2)\<close>

lemma setRecursive_lookup:
  "setRecursive v t nxt k =
     (if k \<noteq> ''__proto__'' \<and> k \<in> path ` set (blobs (nodes t)) then Some v else nxt k)"
  "setRecursiveChildren v cs nxt k =
     (if k \<noteq> ''__proto__'' \<and> k \<in> path ` set (blobs (nodesOf cs)) then Some v else nxt k)"
  by (induction v t nxt and v cs nxt rule: setRecursive_setRecursiveChildren.induct)
    (auto simp: blobs_def assign_def)

lemma find_append:
  "find P (xs @ ys) = (case find P xs of None \<Rightarrow> find P ys | Some x \<Rightarrow> Some x)"
  by (induction xs) auto

lemma findAndSet_find:
  "findAndSet target v t nxt =
     (case find (\<lambda>n. path n = target) (nodes t) of
        None \<Rightarrow> (False, nxt)
      | Some d \<Rightarrow> (True, setRecursive v d nxt))"
  "findAndSetSome target v cs nxt =
     (case find (\<lambda>n. path n = target) (nodesOf cs) of
        None \<Rightarrow> (False, nxt)
      | Some d \<Rightarrow> (True, setRecursive v d nxt))"
proof (induction target v t nxt and target v cs nxt rule: findAndSet_findAndSetSome.induct)
  case (1 target targetVal nm p ty sh u cs nxt)
  then show ?case by simp
next
  case (2 target targetVal nxt)
  show ?case by simp
next
  case (3 target targetVal k child rest nxt)
  show ?case
  proof (cases "find (\<lambda>n. path n = target) (nodes child)")
    case None
    with "3.IH"(1) have c: "findAndSet target targetVal child nxt = (False, nxt)"
      by simp
    from "3.IH"(2) [OF c [symmetric] refl] c None show ?thesis
      by (simp add: find_append)
  next
    case (Some d)
    with "3.IH"(1) show ?thesis
      by (simp add: find_append)
  qed
qed

text \<open>
  C2. Toggling a file path flips what the selection holds for that path. Toggling a
  directory path acts on the first node of the tree, in the order of the walk, that has
  this path (the only one when paths are distinct): every blob below it is set to false
  when the status map holds \<open>checked\<close> for the path, and to true when it holds
  \<open>unchecked\<close> or \<open>indeterminate\<close>. The status map is the one derived from the tree and
  the selection being changed, as it is when one toggle is handled per render. A key
  \<open>__proto__\<close> cannot be assigned and is left out; \<open>buildTree\<close> makes no node of that name.
\<close>

theorem handleToggle_sets_leaves:
  fixes pc :: bool and root d b :: TreeNode and prev :: SelectionState and target :: string
  defines "sm \<equiv> selectionStatusMap pc (Some root) prev"
  defines "nxt \<equiv> handleToggle pc (Some root) sm target False prev"
  shows "(target \<noteq> ''__proto__'' \<longrightarrow>
            truthy pc (handleToggle pc td anyMap target True prev) target
              = (\<not> truthy pc prev target))
    \<and> (find (\<lambda>n. path n = target) (nodes root) = Some d
         \<and> b \<in> set (blobs (nodes d)) \<and> path b \<noteq> ''__proto__'' \<longrightarrow>
           (sm target = Some Checked \<longrightarrow> nxt (path b) = Some False)
         \<and> (sm target = Some Unchecked \<or> sm target = Some Indeterminate \<longrightarrow>
              nxt (path b) = Some True))"
proof -
  have flip: "target \<noteq> ''__proto__'' \<longrightarrow>
            truthy pc (handleToggle pc td anyMap target True prev) target
              = (\<not> truthy pc prev target)"
    by (simp add: handleToggle_def assign_def truthy_def)
  have dir: "nxt (path b) = Some (sm target \<noteq> Some Checked)"
    if "find (\<lambda>n. path n = target) (nodes root) = Some d"
      and "b \<in> set (blobs (nodes d))" and "path b \<noteq> ''__proto__''"
    using that
    by (simp add: nxt_def handleToggle_def findAndSet_find(1) setRecursive_lookup(1))
  from flip dir show ?thesis
    by auto
qed

theorem handleToggle_sets_leaves_witness:
  "truthy False (handleToggle False None Map.empty ''a.ts'' True [''a.ts'' \<mapsto> False]) ''a.ts''
   \<and> handleToggle False
        (Some (TreeNode ''root'' [] Tree [] []
           [(''d'', TreeNode ''d'' ''d'' Tree [] []
              [(''x.ts'', TreeNode ''x.ts'' ''d/x.ts'' Blob ''s1'' ''u1'' [])])]))
        (selectionStatusMap False
           (Some (TreeNode ''root'' [] Tree [] []
              [(''d'', TreeNode ''d'' ''d'' Tree [] []
                 [(''x.ts'', TreeNode ''x.ts'' ''d/x.ts'' Blob ''s1'' ''u1'' [])])]))
           [''d/x.ts'' \<mapsto> False])
        ''d'' False [''d/x.ts'' \<mapsto> False] ''d/x.ts'' = Some True"
  using handleToggle_sets_leaves [of "''a.ts''" False None Map.empty "[''a.ts'' \<mapsto> False]"
      "TreeNode ''root'' [] Tree [] []
           [(''d'', TreeNode ''d'' ''d'' Tree [] []
              [(''x.ts'', TreeNode ''x.ts'' ''d/x.ts'' Blob ''s1'' ''u1'' [])])]"
      "TreeNode ''d'' ''d'' Tree [] []
              [(''x.ts'', TreeNode ''x.ts'' ''d/x.ts'' Blob ''s1'' ''u1'' [])]"
      "TreeNode ''x.ts'' ''d/x.ts'' Blob ''s1'' ''u1'' []"]
    handleToggle_sets_leaves [of "''d''" False None Map.empty "[''d/x.ts'' \<mapsto> False]"
      "TreeNode ''root'' [] Tree [] []
           [(''d'', TreeNode ''d'' ''d'' Tree [] []
              [(''x.ts'', TreeNode ''x.ts'' ''d/x.ts'' Blob ''s1'' ''u1'' [])])]"
      "TreeNode ''d'' ''d'' Tree [] []
              [(''x.ts'', TreeNode ''x.ts'' ''d/x.ts'' Blob ''s1'' ''u1'' [])]"
      "TreeNode ''x.ts'' ''d/x.ts'' Blob ''s1'' ''u1'' []"]
  by (simp add: blobs_def truthy_def selectionStatusMap_def assign_def)

section \<open>The tree built from a listing (C1)\<close>

lemma look_Nil: "look t [] = Some (info t)"
  by (simp add: look_def)

lemma look_Cons:
  "look t (k # ks) = (case map_of (children t) k of None \<Rightarrow> None | Some c \<Rightarrow> look c ks)"
  by (simp add: look_def split: option.splits)

lemma info_insertParts: "info (insertParts pc item parts i rest cur) = info cur"
  by (cases rest) (auto simp: info_def split: option.splits)

lemma map_of_replaceProperty:
  "map_of (replaceProperty key v cs) k =
     (if k = key \<and> map_of cs key \<noteq> None then Some v else map_of cs k)"
  by (induction cs) auto

lemma map_of_addProperty:
  "map_of cs key = None \<Longrightarrow>
   map_of (addProperty key v cs) k = (if k = key then Some v else map_of cs k)"
  by (induction cs) (auto split: if_splits)

lemma look_newNode:
  "look (newNode item parts i part) ks =
     (if ks = [] then Some (info (newNode item parts i part)) else None)"
  by (cases ks) (simp_all add: look_Nil look_Cons newNode_def)

lemma look_insertParts:
  assumes "\<forall>seg\<in>set rest. \<not> inherited pc seg" and "rest = drop i parts"
  shows "look (insertParts pc item parts i rest t) ks =
     (if ks \<noteq> [] \<and> prefix ks rest \<and> look t ks = None
      then Some (created item parts i ks) else look t ks)"
  using assms
proof (induction rest arbitrary: t i ks)
  case Nil
  then show ?case by auto
next
  case (Cons part rest)
  have i: "i < length parts"
    using Cons.prems(2) by (metis drop_all leI list.distinct(1))
  have rest: "rest = drop (Suc i) parts"
    using Cons.prems(2) by (metis drop_Suc tl_drop list.sel(3))
  have ninh: "\<not> inherited pc part" and ninh': "\<forall>seg\<in>set rest. \<not> inherited pc seg"
    using Cons.prems(1) by auto
  note ih = Cons.IH [OF ninh' rest]
  show ?case
  proof (cases ks)
    case Nil
    then show ?thesis
      using info_insertParts [of pc item parts i "part # rest" t] by (simp add: look_Nil)
  next
    case (Cons k ks')
    show ?thesis
    proof (cases "map_of (children t) part")
      case None
      let ?new = "insertParts pc item parts (i + 1) rest (newNode item parts i part)"
      have ins: "insertParts pc item parts i (part # rest) t =
          TreeNode (name t) (path t) (type t) (sha t) (url t)
            (addProperty part ?new (children t))"
        using None ninh by simp
      show ?thesis
      proof (cases "k = part")
        case True
        have "look (insertParts pc item parts i (part # rest) t) ks = look ?new ks'"
          unfolding ins using True Cons None by (simp add: look_Cons map_of_addProperty)
        also have "\<dots> = (if ks' \<noteq> [] \<and> prefix ks' rest
            then Some (created item parts (Suc i) ks')
            else if ks' = [] then Some (info (newNode item parts i part)) else None)"
          using ih [of "newNode item parts i part" ks'] by (simp add: look_newNode)
        also have "\<dots> = (if prefix ks' rest then Some (created item parts i ks) else None)"
          using i True Cons
          by (auto simp: created_def info_def newNode_def slice_def)
        finally show ?thesis
          using True Cons None by (simp add: look_Cons)
      next
        case False
        then show ?thesis
          unfolding ins using Cons None by (simp add: look_Cons map_of_addProperty)
      qed
    next
      case (Some child)
      let ?child = "insertParts pc item parts (i + 1) rest child"
      have ins: "insertParts pc item parts i (part # rest) t =
          TreeNode (name t) (path t) (type t) (sha t) (url t)
            (replaceProperty part ?child (children t))"
        using Some by simp
      show ?thesis
      proof (cases "k = part")
        case True
        have "look (insertParts pc item parts i (part # rest) t) ks = look ?child ks'"
          unfolding ins using True Cons Some by (simp add: look_Cons map_of_replaceProperty)
        also have "\<dots> = (if ks' \<noteq> [] \<and> prefix ks' rest \<and> look child ks' = None
            then Some (created item parts (Suc i) ks') else look child ks')"
          using ih [of child ks'] by simp
        also have "\<dots> = (if prefix ks' rest \<and> look child ks' = None
            then Some (created item parts i ks) else look child ks')"
          using Cons by (auto simp: created_def look_Nil)
        finally show ?thesis
          using True Cons Some by (simp add: look_Cons)
      next
        case False
        then show ?thesis
          unfolding ins using Cons Some by (simp add: look_Cons map_of_replaceProperty)
      qed
    qed
  qed
qed

lemma parentsFirst_append:
  "parentsFirst (xs @ ys) \<Longrightarrow> x \<in> set xs \<Longrightarrow> y \<in> set ys \<Longrightarrow>
   \<not> strict_prefix (segments y) (segments x)"
  by (induction xs) (auto simp: list_all_iff)

lemma find_None: "find P xs = None \<longleftrightarrow> (\<forall>x\<in>set xs. \<not> P x)"
  by (induction xs) auto

lemma inherited_proto: "inherited pc ''__proto__''"
  by (simp add: inherited_def Object_prototype_keys_def)

lemma insert_expected:
  assumes inv: "\<forall>ks. ks \<noteq> [] \<longrightarrow> look t ks = expected seen ks"
    and dist: "distinct (map item_path (seen @ [item]))"
    and pf: "parentsFirst (seen @ [item])"
    and ninh: "\<forall>seg\<in>set (segments item). \<not> inherited pc seg"
    and ks: "ks \<noteq> []"
  shows "look (insertParts pc item (segments item) 0 (segments item) t) ks
           = expected (seen @ [item]) ks"
proof -
  let ?parts = "segments item"
  have l: "look (insertParts pc item ?parts 0 ?parts t) ks =
      (if prefix ks ?parts \<and> look t ks = None then Some (created item ?parts 0 ks)
       else look t ks)"
    using look_insertParts [of ?parts pc 0 ?parts item t ks] ninh ks by simp
  have old: "look t ks = expected seen ks"
    using inv ks by simp
  have notin: "segments e \<noteq> ?parts" if "e \<in> set seen" for e
  proof
    assume "segments e = ?parts"
    then have "item_path e = item_path item"
      unfolding segments_def by (rule split_inj)
    with that dist show False by (force simp: image_iff)
  qed
  show ?thesis
  proof (cases "list_ex (\<lambda>e. prefix ks (segments e)) seen")
    case True
    then obtain e where e: "e \<in> set seen" "prefix ks (segments e)"
      by (auto simp: list_ex_iff)
    have "?parts \<noteq> ks"
    proof
      assume eq: "?parts = ks"
      with e have "prefix ?parts (segments e)" by simp
      moreover have "\<not> strict_prefix ?parts (segments e)"
        using parentsFirst_append [OF pf e(1), of item] by simp
      ultimately have "segments e = ?parts"
        by (auto simp: strict_prefix_def)
      with notin [OF e(1)] show False by simp
    qed
    then have "recordOf (seen @ [item]) ks = recordOf seen ks"
      by (auto simp: recordOf_def find_append split: option.splits)
    with True old l show ?thesis
      by (simp add: expected_def)
  next
    case False
    note nex = this
    then have none: "\<forall>e\<in>set seen. \<not> prefix ks (segments e)"
      by (simp add: list_ex_iff)
    from nex old have t: "look t ks = None"
      by (simp add: expected_def)
    show ?thesis
    proof (cases "prefix ks ?parts")
      case True
      note p = this
      then have tk: "take (length ks) ?parts = ks"
        by (auto simp: prefix_def)
      have len: "length ks = length ?parts \<longleftrightarrow> ?parts = ks"
        using tk by (metis take_all_iff order_refl)
      have f: "find (\<lambda>i. segments i = ks) seen = None"
        using none by (auto simp: find_None)
      have "recordOf (seen @ [item]) ks =
          (if ?parts = ks then (item_type item, item_sha item, item_url item) else (Tree, [], []))"
        by (simp add: recordOf_def find_append f)
      with p t l tk len show ?thesis
        by (simp add: expected_def created_def)
    next
      case False
      with nex t l show ?thesis
        by (simp add: expected_def)
    qed
  qed
qed

lemma forEachItem_expected:
  assumes "\<forall>ks. ks \<noteq> [] \<longrightarrow> look t ks = expected seen ks"
    and "distinct (map item_path (seen @ items))"
    and "parentsFirst (seen @ items)"
    and "\<forall>item\<in>set items. \<forall>seg\<in>set (segments item). \<not> inherited pc seg"
  shows "\<forall>ks. ks \<noteq> [] \<longrightarrow> look (forEachItem pc items t) ks = expected (seen @ items) ks"
  using assms
proof (induction items arbitrary: t seen)
  case Nil
  then show ?case by simp
next
  case (Cons item items)
  let ?parts = "segments item"
  let ?t = "insertParts pc item ?parts 0 ?parts t"
  have ninh: "\<forall>seg\<in>set ?parts. \<not> inherited pc seg"
    using Cons.prems(4) by simp
  then have "''__proto__'' \<notin> set ?parts"
    using inherited_proto by blast
  then have np: "\<not> pollutes ?parts"
    by (auto simp: pollutes_def dest: in_set_butlastD)
  have d1: "distinct (map item_path (seen @ [item]))"
    using Cons.prems(2) by auto
  have p1: "parentsFirst (seen @ [item])"
    using Cons.prems(3) by (induction seen) (auto simp: list_all_iff)
  have inv: "\<forall>ks. ks \<noteq> [] \<longrightarrow> look ?t ks = expected (seen @ [item]) ks"
    using insert_expected [OF Cons.prems(1) d1 p1 ninh] by blast
  have "\<forall>ks. ks \<noteq> [] \<longrightarrow>
      look (forEachItem pc items ?t) ks = expected ((seen @ [item]) @ items) ks"
    using Cons.IH [OF inv] Cons.prems by simp
  then show ?case
    using np by (simp add: segments_def Let_def)
qed

lemma distinctKeys_children:
  "distinctKeys t = (distinct (map fst (children t)) \<and> distinctKeysOf (children t))"
  by (cases t) simp

lemma distinctKeysOf_iff: "distinctKeysOf cs \<longleftrightarrow> (\<forall>(k, c)\<in>set cs. distinctKeys c)"
  by (induction cs) auto

lemma keys_replaceProperty: "map fst (replaceProperty key v cs) = map fst cs"
  by (induction key v cs rule: replaceProperty.induct) auto

lemma set_replaceProperty:
  "set (replaceProperty key v cs) \<subseteq> insert (key, v) (set cs)"
  by (induction key v cs rule: replaceProperty.induct) auto

lemma keys_addProperty: "set (map fst (addProperty key v cs)) = insert key (set (map fst cs))"
  by (induction key v cs rule: addProperty.induct) auto

lemma distinct_addProperty:
  "key \<notin> set (map fst cs) \<Longrightarrow> distinct (map fst cs) \<Longrightarrow>
   distinct (map fst (addProperty key v cs))"
proof (induction cs)
  case Nil
  then show ?case by simp
next
  case (Cons kc cs)
  then show ?case
    using keys_addProperty [of key v cs] by (cases kc) auto
qed

lemma set_addProperty: "set (addProperty key v cs) = insert (key, v) (set cs)"
  by (induction key v cs rule: addProperty.induct) auto

lemma map_of_None_keys: "map_of cs key = None \<longleftrightarrow> key \<notin> set (map fst cs)"
  by (simp add: map_of_eq_None_iff)

lemma distinctKeys_newNode: "distinctKeys (newNode item parts i part)"
  by (simp add: newNode_def)

lemma distinctKeys_insertParts:
  "distinctKeys t \<Longrightarrow> distinctKeys (insertParts pc item parts i rest t)"
proof (induction rest arbitrary: t i)
  case Nil
  then show ?case by simp
next
  case (Cons part rest)
  from Cons.prems have d: "distinct (map fst (children t))" and dk: "distinctKeysOf (children t)"
    by (simp_all add: distinctKeys_children)
  show ?case
  proof (cases "map_of (children t) part")
    case None
    show ?thesis
    proof (cases "inherited pc part")
      case True
      with None Cons.prems show ?thesis by simp
    next
      case False
      let ?new = "insertParts pc item parts (i + 1) rest (newNode item parts i part)"
      have n: "distinctKeys ?new"
        using Cons.IH [OF distinctKeys_newNode] .
      have k: "part \<notin> set (map fst (children t))"
        using None by (simp add: map_of_None_keys)
      have "distinctKeysOf (addProperty part ?new (children t))"
        using dk n by (auto simp: distinctKeysOf_iff set_addProperty)
      with None False distinct_addProperty [OF k d] show ?thesis
        by simp
    qed
  next
    case (Some child)
    let ?child = "insertParts pc item parts (i + 1) rest child"
    have "(part, child) \<in> set (children t)"
      using Some by (rule map_of_SomeD)
    with dk have "distinctKeys child"
      by (auto simp: distinctKeysOf_iff)
    then have c: "distinctKeys ?child"
      by (rule Cons.IH)
    have "distinctKeysOf (replaceProperty part ?child (children t))"
      using dk c set_replaceProperty [of part ?child "children t"]
      by (auto simp: distinctKeysOf_iff)
    with Some d show ?thesis
      by (simp add: keys_replaceProperty)
  qed
qed

lemma distinctKeys_forEachItem:
  "distinctKeys t \<Longrightarrow> distinctKeys (forEachItem pc items t)"
  by (induction items arbitrary: t pc) (simp_all add: Let_def distinctKeys_insertParts)

lemma distinctKeys_buildTree: "distinctKeys (buildTree pc items)"
  by (simp add: buildTree_def distinctKeys_forEachItem root_node_def)

lemma snd_entries:
  "map snd (entries ks t) = nodes t"
  "map snd (entriesOf ks cs) = nodesOf cs"
  by (induction ks t and ks cs rule: entries_entriesOf.induct) simp_all

lemma entries_prefix:
  "(qs, n) \<in> set (entries ks t) \<Longrightarrow> prefix ks qs"
  "(qs, n) \<in> set (entriesOf ks cs) \<Longrightarrow> \<exists>k\<in>set (map fst cs). prefix (ks @ [k]) qs"
  by (induction ks t and ks cs arbitrary: qs n and qs n rule: entries_entriesOf.induct)
    (auto dest: append_prefixD)

lemma entries_descend:
  "(qs, n) \<in> set (entries ks t) \<Longrightarrow> distinctKeys t \<Longrightarrow>
   \<exists>rs. qs = ks @ rs \<and> descend t rs = Some n"
  "(qs, n) \<in> set (entriesOf ks cs) \<Longrightarrow> distinct (map fst cs) \<Longrightarrow> distinctKeysOf cs \<Longrightarrow>
   \<exists>k c rs. map_of cs k = Some c \<and> qs = ks @ k # rs \<and> descend c rs = Some n"
proof (induction ks t and ks cs arbitrary: qs n and qs n rule: entries_entriesOf.induct)
  case (1 ks nm p ty sh u cs)
  let ?t = "TreeNode nm p ty sh u cs"
  show ?case
  proof (cases "(qs, n) = (ks, ?t)")
    case True
    then have "qs = ks @ [] \<and> descend ?t [] = Some n" by simp
    then show ?thesis by blast
  next
    case False
    with "1.prems"(1) have "(qs, n) \<in> set (entriesOf ks cs)" by auto
    from "1.IH" [OF this] "1.prems"(2)
    obtain k c rs where "map_of cs k = Some c" "qs = ks @ k # rs" "descend c rs = Some n"
      by auto
    then have "qs = ks @ (k # rs) \<and> descend ?t (k # rs) = Some n" by simp
    then show ?thesis by blast
  qed
next
  case (2 ks)
  then show ?case by simp
next
  case (3 ks k child rest)
  from "3.prems"(1) consider "(qs, n) \<in> set (entries (ks @ [k]) child)"
    | "(qs, n) \<in> set (entriesOf ks rest)"
    by auto
  then show ?case
  proof cases
    case 1
    from "3.IH"(1) [OF 1] "3.prems"(3)
    obtain rs where "qs = (ks @ [k]) @ rs" "descend child rs = Some n"
      by auto
    then have "map_of ((k, child) # rest) k = Some child \<and> qs = ks @ k # rs
        \<and> descend child rs = Some n"
      by simp
    then show ?thesis by blast
  next
    case 2
    from "3.IH"(2) [OF 2] "3.prems"(2,3)
    obtain k' c rs where r: "map_of rest k' = Some c" "qs = ks @ k' # rs"
        "descend c rs = Some n"
      by auto
    from r(1) have "k' \<in> set (map fst rest)"
      by (metis map_of_None_keys option.distinct(1))
    with "3.prems"(2) have "k' \<noteq> k" by auto
    with r have "map_of ((k, child) # rest) k' = Some c \<and> qs = ks @ k' # rs
        \<and> descend c rs = Some n"
      by simp
    then show ?thesis by blast
  qed
qed

lemma entries_child: "(k, c) \<in> set cs \<Longrightarrow> set (entries (ks @ [k]) c) \<subseteq> set (entriesOf ks cs)"
  by (induction cs) auto

lemma entries_unfold: "entries ks t = (ks, t) # entriesOf ks (children t)"
  by (cases t) simp

lemma descend_entries: "descend t rs = Some n \<Longrightarrow> (ks @ rs, n) \<in> set (entries ks t)"
proof (induction rs arbitrary: t ks)
  case Nil
  then show ?case by (simp add: entries_unfold)
next
  case (Cons k rs)
  then obtain c where c: "map_of (children t) k = Some c" "descend c rs = Some n"
    by (auto split: option.splits)
  from c(1) have "(k, c) \<in> set (children t)" by (rule map_of_SomeD)
  then have "set (entries (ks @ [k]) c) \<subseteq> set (entriesOf ks (children t))"
    by (rule entries_child)
  with Cons.IH [OF c(2), of "ks @ [k]"] show ?case
    by (auto simp: entries_unfold [of ks t])
qed

lemma prefix_same_length:
  "prefix (ks @ [k]) qs \<Longrightarrow> prefix (ks @ [k']) qs \<Longrightarrow> k = k'"
  by (auto simp: prefix_def append_eq_append_conv2 Cons_eq_append_conv)

lemma distinct_entries:
  "distinctKeys t \<Longrightarrow> distinct (map fst (entries ks t))"
  "distinct (map fst cs) \<Longrightarrow> distinctKeysOf cs \<Longrightarrow> distinct (map fst (entriesOf ks cs))"
proof (induction ks t and ks cs rule: entries_entriesOf.induct)
  case (1 ks nm p ty sh u cs)
  have "ks \<notin> fst ` set (entriesOf ks cs)"
  proof
    assume "ks \<in> fst ` set (entriesOf ks cs)"
    then obtain n where "(ks, n) \<in> set (entriesOf ks cs)" by auto
    from entries_prefix(2) [OF this] show False by auto
  qed
  with 1 show ?case by simp
next
  case (2 ks)
  show ?case by simp
next
  case (3 ks k child rest)
  have "fst ` set (entries (ks @ [k]) child) \<inter> fst ` set (entriesOf ks rest) = {}"
  proof (rule ccontr)
    assume "\<not> ?thesis"
    then obtain qs n n' where a: "(qs, n) \<in> set (entries (ks @ [k]) child)"
      and b: "(qs, n') \<in> set (entriesOf ks rest)"
      by fastforce
    from entries_prefix(1) [OF a] have p1: "prefix (ks @ [k]) qs" .
    from entries_prefix(2) [OF b] obtain k' where k': "k' \<in> set (map fst rest)"
      "prefix (ks @ [k']) qs" by blast
    from prefix_same_length [OF p1 k'(2)] k'(1) "3.prems"(1) show False by auto
  qed
  with 3 show ?case by simp
qed

lemma look_root_node: "ks \<noteq> [] \<Longrightarrow> look root_node ks = None"
  by (cases ks) (simp_all add: look_Cons root_node_def)

lemma buildTree_expected:
  assumes "distinct (map item_path items)"
    and "parentsFirst items"
    and "\<forall>item\<in>set items. \<forall>seg\<in>set (segments item). \<not> inherited pc seg"
    and "ks \<noteq> []"
  shows "look (buildTree pc items) ks = expected items ks"
proof -
  have "\<forall>ks. ks \<noteq> [] \<longrightarrow> look root_node ks = expected [] ks"
    by (simp add: look_root_node expected_def)
  from forEachItem_expected [OF this, of items pc] assms show ?thesis
    by (simp add: buildTree_def)
qed

lemma find_Some_set: "find P xs = Some x \<Longrightarrow> x \<in> set xs \<and> P x"
  by (induction xs) (auto split: if_splits)

lemma segments_free: "seg \<in> set (segments item) \<Longrightarrow> CHR ''/'' \<notin> set seg"
  unfolding segments_def by (rule split_free)

lemma join_segments: "join CHR ''/'' (segments item) = item_path item"
  by (simp add: segments_def join_split)

lemma prefix_free:
  "prefix ks (segments item) \<Longrightarrow> \<forall>seg\<in>set ks. CHR ''/'' \<notin> set seg"
proof
  fix seg
  assume "prefix ks (segments item)" and "seg \<in> set ks"
  then have "seg \<in> set (segments item)"
    by (auto simp: prefix_def)
  then show "CHR ''/'' \<notin> set seg"
    by (rule segments_free)
qed

text \<open>
  C1, as the code has it. Take a listing with no duplicate paths, in which no record
  comes after a record below it, and in which no segment is a member of
  \<open>Object.prototype\<close>. Then the paths of the descendants of the root are exactly the
  paths of the listing and the joined non-empty proper prefixes of their segments; no
  two descendants have the same path; a node whose path is in the listing has the kind,
  sha and url of that record; every other node is a tree with empty sha and url.
\<close>

theorem buildTree_walk:
  fixes pc :: bool and items :: "GitHubItem list"
  assumes dist: "distinct (map item_path items)"
    and pf: "parentsFirst items"
    and ninh: "\<forall>item\<in>set items. \<forall>seg\<in>set (segments item). \<not> inherited pc seg"
  defines "T \<equiv> buildTree pc items"
  shows "set (map path (walk T)) =
           item_path ` set items
           \<union> {join CHR ''/'' ks | ks item.
                item \<in> set items \<and> ks \<noteq> [] \<and> strict_prefix ks (segments item)}
    \<and> distinct (map path (walk T))
    \<and> (\<forall>n\<in>set (walk T). \<forall>item\<in>set items. item_path item = path n \<longrightarrow>
          type n = item_type item \<and> sha n = item_sha item \<and> url n = item_url item)
    \<and> (\<forall>n\<in>set (walk T). path n \<notin> item_path ` set items \<longrightarrow>
          type n = Tree \<and> sha n = [] \<and> url n = [])"
proof -
  define E where "E = entriesOf [] (children T)"
  have dk: "distinct (map fst (children T))" "distinctKeysOf (children T)"
    using distinctKeys_buildTree [of pc items] by (simp_all add: T_def distinctKeys_children)
  have walkE: "walk T = map snd E"
    by (simp add: walk_def E_def snd_entries)
  have inv: "look T ks = expected items ks" if "ks \<noteq> []" for ks
    unfolding T_def using dist pf ninh that by (rule buildTree_expected)
  have E1: "qs \<noteq> [] \<and> look T qs = Some (info n)" if "(qs, n) \<in> set E" for qs n
  proof -
    from entries_descend(2) [OF that [unfolded E_def] dk]
    obtain k c rs where "map_of (children T) k = Some c" "qs = k # rs" "descend c rs = Some n"
      by auto
    then show ?thesis
      by (simp add: look_def)
  qed
  have E2: "(\<exists>item\<in>set items. prefix qs (segments item))
      \<and> info n = (last qs, join CHR ''/'' qs, recordOf items qs)"
    if "(qs, n) \<in> set E" for qs n
    using E1 [OF that] inv [of qs]
    by (auto simp: expected_def list_ex_iff split: if_splits)
  have E3: "\<exists>n. (ks, n) \<in> set E"
    if "ks \<noteq> []" "item \<in> set items" "prefix ks (segments item)" for ks item
  proof -
    have "list_ex (\<lambda>item. prefix ks (segments item)) items"
      using that by (auto simp: list_ex_iff)
    then have "expected items ks \<noteq> None"
      by (simp add: expected_def)
    with inv [OF that(1)] obtain n where "descend T ks = Some n"
      by (auto simp: look_def)
    from descend_entries [OF this, of "[]"] that(1) show ?thesis
      by (auto simp: entries_unfold [of "[]" T] E_def)
  qed
  have pathE: "path n = join CHR ''/'' qs" if "(qs, n) \<in> set E" for qs n
    using E2 [OF that] by (simp add: info_def)
  have paths: "map path (walk T) = map (join CHR ''/'') (map fst E)"
    using pathE by (auto simp: walkE)
  have free: "qs \<noteq> [] \<and> (\<forall>seg\<in>set qs. CHR ''/'' \<notin> set seg)" if "qs \<in> set (map fst E)" for qs
  proof -
    from that obtain n where n: "(qs, n) \<in> set E" by auto
    from E1 [OF n] E2 [OF n] prefix_free show ?thesis by blast
  qed
  have one: "set (map path (walk T)) =
      {join CHR ''/'' ks | ks item. item \<in> set items \<and> ks \<noteq> [] \<and> prefix ks (segments item)}"
    (is "?L = ?R")
  proof
    show "?L \<subseteq> ?R"
    proof
      fix p assume "p \<in> ?L"
      then obtain qs n where n: "(qs, n) \<in> set E" "p = path n"
        by (auto simp: walkE)
      from E1 [OF n(1)] E2 [OF n(1)] pathE [OF n(1)] n(2) show "p \<in> ?R"
        by blast
    qed
    show "?R \<subseteq> ?L"
    proof
      fix p assume "p \<in> ?R"
      then obtain ks item where k: "p = join CHR ''/'' ks" "item \<in> set items" "ks \<noteq> []"
          "prefix ks (segments item)"
        by blast
      from E3 [OF k(3,2,4)] obtain n where n: "(ks, n) \<in> set E" by blast
      then have "n \<in> set (walk T)"
        by (force simp: walkE)
      with pathE [OF n] k(1) show "p \<in> ?L"
        by force
    qed
  qed
  have segne: "segments item \<noteq> []" for item
    by (simp add: segments_def split_not_Nil)
  have first: "set (map path (walk T)) =
           item_path ` set items
           \<union> {join CHR ''/'' ks | ks item.
                item \<in> set items \<and> ks \<noteq> [] \<and> strict_prefix ks (segments item)}"
    (is "_ = ?A \<union> ?B")
  proof -
    have "{join CHR ''/'' ks | ks item. item \<in> set items \<and> ks \<noteq> [] \<and> prefix ks (segments item)}
        = ?A \<union> ?B"
    proof (intro equalityI subsetI)
      fix p
      assume "p \<in> {join CHR ''/'' ks | ks item.
          item \<in> set items \<and> ks \<noteq> [] \<and> prefix ks (segments item)}"
      then obtain ks item where k: "p = join CHR ''/'' ks" "item \<in> set items" "ks \<noteq> []"
          "prefix ks (segments item)"
        by blast
      show "p \<in> ?A \<union> ?B"
      proof (cases "ks = segments item")
        case True
        with k(1,2) show ?thesis by (simp add: join_segments)
      next
        case False
        with k(4) have "strict_prefix ks (segments item)"
          by (simp add: strict_prefix_def)
        with k show ?thesis by blast
      qed
    next
      fix p
      assume "p \<in> ?A \<union> ?B"
      then consider item where "item \<in> set items" "p = item_path item"
        | ks item where "p = join CHR ''/'' ks" "item \<in> set items" "ks \<noteq> []"
            "strict_prefix ks (segments item)"
        by blast
      then show "p \<in> {join CHR ''/'' ks | ks item.
          item \<in> set items \<and> ks \<noteq> [] \<and> prefix ks (segments item)}"
      proof cases
        case 1
        then have "p = join CHR ''/'' (segments item) \<and> item \<in> set items
            \<and> segments item \<noteq> [] \<and> prefix (segments item) (segments item)"
          by (simp add: join_segments segne)
        then show ?thesis by blast
      next
        case 2
        then have "p = join CHR ''/'' ks \<and> item \<in> set items \<and> ks \<noteq> []
            \<and> prefix ks (segments item)"
          by (simp add: strict_prefix_def)
        then show ?thesis by blast
      qed
    qed
    with one show ?thesis by simp
  qed
  have second: "distinct (map path (walk T))"
  proof -
    have "distinct (map fst E)"
      unfolding E_def using dk by (rule distinct_entries(2))
    moreover have "inj_on (join CHR ''/'') (set (map fst E))"
    proof (rule inj_onI)
      fix qs qs'
      assume a: "qs \<in> set (map fst E)" "qs' \<in> set (map fst E)"
        "join CHR ''/'' qs = join CHR ''/'' qs'"
      from free [OF a(1)] free [OF a(2)] a(3) show "qs = qs'"
        by (meson join_inj)
    qed
    ultimately have "distinct (map (join CHR ''/'') (map fst E))"
      by (subst distinct_map) blast
    then show ?thesis
      by (simp only: paths)
  qed
  have third: "type n = item_type item \<and> sha n = item_sha item \<and> url n = item_url item"
    if "n \<in> set (walk T)" "item \<in> set items" "item_path item = path n" for n item
  proof -
    from that(1) obtain qs where q: "(qs, n) \<in> set E"
      by (auto simp: walkE)
    have fr: "qs \<noteq> []" "\<forall>seg\<in>set qs. CHR ''/'' \<notin> set seg"
      using free [of qs] q by force+
    have "segments item = split CHR ''/'' (join CHR ''/'' qs)"
      using that(3) pathE [OF q] by (simp add: segments_def)
    then have seg: "segments item = qs"
      using fr by (simp add: split_join)
    then have "find (\<lambda>i. segments i = qs) items \<noteq> None"
      using that(2) by (auto simp: find_None)
    then obtain i where i: "find (\<lambda>i. segments i = qs) items = Some i"
      by blast
    from find_Some_set [OF i] seg have "i \<in> set items" "segments i = segments item"
      by simp_all
    then have "item_path i = item_path item"
      unfolding segments_def by (metis split_inj)
    with \<open>i \<in> set items\<close> that(2) dist have "i = item"
      by (metis distinct_map inj_onD)
    with i E2 [OF q] show ?thesis
      by (simp add: info_def recordOf_def)
  qed
  have fourth: "type n = Tree \<and> sha n = [] \<and> url n = []"
    if "n \<in> set (walk T)" "path n \<notin> item_path ` set items" for n
  proof -
    from that(1) obtain qs where q: "(qs, n) \<in> set E"
      by (auto simp: walkE)
    have "find (\<lambda>i. segments i = qs) items = None"
    proof (rule ccontr)
      assume "find (\<lambda>i. segments i = qs) items \<noteq> None"
      then obtain i where "find (\<lambda>i. segments i = qs) items = Some i" by blast
      from find_Some_set [OF this] have i: "i \<in> set items" "segments i = qs"
        by simp_all
      from i(2) have "item_path i = join CHR ''/'' qs"
        using join_segments [of i] by simp
      with pathE [OF q] i(1) that(2) show False by force
    qed
    with E2 [OF q] show ?thesis
      by (simp add: info_def recordOf_def)
  qed
  from first second third fourth show ?thesis
    by blast
qed

text \<open>
  The claim as stated fails for a listing in another order: when a file below \<open>a\<close>
  comes before the record of \<open>a\<close> itself, the node of \<open>a\<close> is made on the way to the
  file, as a tree with empty sha and url, and the record of \<open>a\<close> no longer changes it.
  It also fails for a segment that is a member of \<open>Object.prototype\<close>: the record
  \<open>constructor\<close> gets no node.
\<close>

theorem buildTree_order_counterexample:
  "map (\<lambda>n. (path n, type n, sha n, url n))
     (walk (buildTree False
        [GitHubItem ''a/b.txt'' Blob ''s1'' ''u1'', GitHubItem ''a'' Tree ''s2'' ''u2'']))
     = [(''a'', Tree, [], []), (''a/b.txt'', Blob, ''s1'', ''u1'')]
   \<and> walk (buildTree False [GitHubItem ''constructor'' Blob ''s1'' ''u1'']) = []"
  by (simp add: buildTree_def root_node_def newNode_def slice_def inherited_def
      Object_prototype_keys_def pollutes_def isArrayIndex_def isDigit_def walk_def)

lemma parentsFirst_example:
  "parentsFirst
     [GitHubItem ''a'' Tree ''s1'' ''u1'', GitHubItem ''a/b.txt'' Blob ''s2'' ''u2'',
      GitHubItem ''e.txt'' Blob ''s3'' ''u3'']"
  by (simp add: segments_def)

lemma segments_example:
  "\<forall>item\<in>set [GitHubItem ''a'' Tree ''s1'' ''u1'', GitHubItem ''a/b.txt'' Blob ''s2'' ''u2'',
      GitHubItem ''e.txt'' Blob ''s3'' ''u3''].
     \<forall>seg\<in>set (segments item). \<not> inherited False seg"
  by (simp add: segments_def inherited_def Object_prototype_keys_def)

theorem buildTree_walk_witness:
  "distinct (map item_path
     [GitHubItem ''a'' Tree ''s1'' ''u1'', GitHubItem ''a/b.txt'' Blob ''s2'' ''u2'',
      GitHubItem ''e.txt'' Blob ''s3'' ''u3''])
   \<and> parentsFirst
     [GitHubItem ''a'' Tree ''s1'' ''u1'', GitHubItem ''a/b.txt'' Blob ''s2'' ''u2'',
      GitHubItem ''e.txt'' Blob ''s3'' ''u3'']
   \<and> distinct (map path (walk (buildTree False
     [GitHubItem ''a'' Tree ''s1'' ''u1'', GitHubItem ''a/b.txt'' Blob ''s2'' ''u2'',
      GitHubItem ''e.txt'' Blob ''s3'' ''u3''])))"
proof -
  have d: "distinct (map item_path
     [GitHubItem ''a'' Tree ''s1'' ''u1'', GitHubItem ''a/b.txt'' Blob ''s2'' ''u2'',
      GitHubItem ''e.txt'' Blob ''s3'' ''u3''])"
    by simp
  from buildTree_walk [OF d parentsFirst_example segments_example] d parentsFirst_example
  show ?thesis
    by blast
qed

end
